theory Spec2Isabelle
  imports Main "HOL-Library.AList" "HOL-Library.Sublist" "HOL-Library.Multiset"
begin

section \<open>The evaluation-dataset builder \<^verbatim>\<open>scripts/precompute-eval-embeddings.py\<close>\<close>

text \<open>
  The script is one forward pass: load the annotation rows, group them by query, select the
  queries with enough positives, sample the candidates of each, fetch every sampled locator,
  and assemble chunks and queries. Each stage is embedded below as the function the script
  computes there. Python's \<^verbatim>\<open>int\<close> is \<^typ>\<open>int\<close>; a Python \<^verbatim>\<open>str\<close> is a \<^typ>\<open>string\<close>,
  one \<^typ>\<open>char\<close> per code point (code points below 256); an insertion-ordered \<^verbatim>\<open>dict\<close> is
  an association list updated with \<^const>\<open>AList.update\<close>, which overwrites a present key in
  place and appends a new key at the end, as Python does; an exception is a value of
  \<open>exn\<close> on the left of a sum.
\<close>

subsection \<open>Configuration\<close>

definition TARGET_QUERIES :: int where
  "TARGET_QUERIES = 25"

definition MAX_CANDIDATES :: int where
  "MAX_CANDIDATES = 12"

definition MIN_POSITIVES :: int where
  "MIN_POSITIVES = 2"

definition RELEVANCE_THRESHOLD :: int where
  "RELEVANCE_THRESHOLD = 2"

subsection \<open>Python primitives\<close>

datatype exn = ValueError | FetchError

text \<open>
  \<^verbatim>\<open>xs[a:b]\<close> with integer bounds: a negative bound counts from the end, and both bounds are
  clamped to the list. \<^verbatim>\<open>xs[:b]\<close> is \<^verbatim>\<open>xs[0:b]\<close>.
\<close>

definition slice_index :: "nat \<Rightarrow> int \<Rightarrow> nat" where
  "slice_index n i = (if i < 0 then nat (int n + i) else min n (nat i))"

definition slice :: "'a list \<Rightarrow> int \<Rightarrow> int \<Rightarrow> 'a list" where
  "slice xs a b =
     (let lo = slice_index (length xs) a; hi = slice_index (length xs) b
      in take (hi - lo) (drop lo xs))"

definition slice_to :: "'a list \<Rightarrow> int \<Rightarrow> 'a list" where
  "slice_to xs b = slice xs 0 b"

definition len :: "'a list \<Rightarrow> int" where
  "len xs = int (length xs)"

text \<open>
  \<^verbatim>\<open>str.isspace\<close> on code points below 256, which is what \<^verbatim>\<open>str.strip()\<close> removes at both
  ends; \<^verbatim>\<open>int(str)\<close> skips a smaller set (not the separators \<open>0x1C\<close> to \<open>0x1F\<close>).
\<close>

definition is_space :: "char \<Rightarrow> bool" where
  "is_space c = (let n = (of_char c :: nat) in (9 \<le> n \<and> n \<le> 13) \<or> (28 \<le> n \<and> n \<le> 32) \<or> n = 133 \<or> n = 160)"

definition is_int_space :: "char \<Rightarrow> bool" where
  "is_int_space c = (let n = (of_char c :: nat) in (9 \<le> n \<and> n \<le> 13) \<or> n = 32 \<or> n = 133 \<or> n = 160)"

definition strip_with :: "(char \<Rightarrow> bool) \<Rightarrow> string \<Rightarrow> string" where
  "strip_with sp s = rev (dropWhile sp (rev (dropWhile sp s)))"

definition strip :: "string \<Rightarrow> string" where
  "strip s = strip_with is_space s"

text \<open>\<^verbatim>\<open>\d\<close> on code points below 256: the ASCII digits.\<close>

definition is_digit :: "char \<Rightarrow> bool" where
  "is_digit c = (let n = (of_char c :: nat) in 48 \<le> n \<and> n \<le> 57)"

definition digit_val :: "char \<Rightarrow> nat" where
  "digit_val c = of_char c - 48"

definition dec_value :: "string \<Rightarrow> nat" where
  "dec_value ds = foldl (\<lambda>a c. 10 * a + digit_val c) 0 ds"

text \<open>
  The digits of a base-10 integer literal, \<^verbatim>\<open>digit (["_"] digit)*\<close>, with the underscores
  removed; \<open>None\<close> when the text is not of that shape.
\<close>

fun int_digits :: "string \<Rightarrow> string option" where
  "int_digits [] = None"
| "int_digits [c] = (if is_digit c then Some [c] else None)"
| "int_digits (c # d # s) =
     (if \<not> is_digit c then None
      else if d = CHR ''_'' then map_option (Cons c) (int_digits s)
      else map_option (Cons c) (int_digits (d # s)))"

text \<open>
  \<^verbatim>\<open>int(s)\<close> for a string: surrounding whitespace, an optional sign, the digits. CPython
  refuses a literal of more than 4300 digits (\<^verbatim>\<open>sys.get_int_max_str_digits()\<close>).
\<close>

definition MAX_STR_DIGITS :: nat where
  "MAX_STR_DIGITS = 4300"

definition py_int :: "string \<Rightarrow> exn + int" where
  "py_int s =
     (let t = strip_with is_int_space s;
          (neg, body) = (case t of
                           [] \<Rightarrow> (False, [])
                         | c # r \<Rightarrow> if c = CHR ''-'' then (True, r)
                                    else if c = CHR ''+'' then (False, r) else (False, t))
      in case int_digits body of
           None \<Rightarrow> Inl ValueError
         | Some ds \<Rightarrow>
             if length ds > MAX_STR_DIGITS then Inl ValueError
             else Inr (if neg then - int (dec_value ds) else int (dec_value ds)))"

text \<open>\<^verbatim>\<open>"\n".join(xs)\<close>.\<close>

fun join_nl :: "string list \<Rightarrow> string" where
  "join_nl [] = []"
| "join_nl [x] = x"
| "join_nl (x # y # xs) = x @ [CHR 0x0A] @ join_nl (y # xs)"

text \<open>
  \<^verbatim>\<open>f"{n:02d}"\<close> for a number that is never negative (an \<^verbatim>\<open>enumerate\<close> index, a counter
  that starts at 0 and is only incremented): the decimal digits, zero-padded to two.
\<close>

definition digit_char :: "nat \<Rightarrow> char" where
  "digit_char d = char_of (48 + d)"

fun dec :: "nat \<Rightarrow> string" where
  "dec n = (if n < 10 then [digit_char n] else dec (n div 10) @ [digit_char (n mod 10)])"

declare dec.simps [simp del]

definition fmt_02d :: "nat \<Rightarrow> string" where
  "fmt_02d n = (if n < 10 then CHR ''0'' # dec n else dec n)"

subsection \<open>Candidates and sampling\<close>

record candidate =
  url :: string
  relevance :: int

definition positives :: "candidate list \<Rightarrow> candidate list" where
  "positives candidates = filter (\<lambda>c. relevance c \<ge> RELEVANCE_THRESHOLD) candidates"

definition negatives :: "candidate list \<Rightarrow> candidate list" where
  "negatives candidates = filter (\<lambda>c. relevance c < RELEVANCE_THRESHOLD) candidates"

definition selected :: "candidate list \<Rightarrow> candidate list" where
  "selected candidates =
     positives candidates
     @ slice_to (negatives candidates) (MAX_CANDIDATES - len (positives candidates))"

text \<open>Thirteen positives followed by two negatives, all for one query.\<close>

definition over_cap :: "candidate list" where
  "over_cap =
     map (\<lambda>i. \<lparr>url = ''p'' @ [char_of (i + 97)], relevance = 2\<rparr>) [0 ..< 13 :: nat]
     @ [\<lparr>url = ''n1'', relevance = 0\<rparr>, \<lparr>url = ''n2'', relevance = 0\<rparr>]"

subsection \<open>Annotation loader\<close>

text \<open>
  A row of \<^verbatim>\<open>csv.DictReader\<close>. A field is a string; \<^verbatim>\<open>Relevance\<close> is \<open>None\<close> when the
  row is too short to have it (the reader's \<^verbatim>\<open>restval\<close>).
\<close>

record row =
  Language :: string
  Query :: string
  GitHubUrl :: string
  Relevance :: "string option"

text \<open>\<^verbatim>\<open>int(r["Relevance"] or 0)\<close>: \<open>None\<close> and the empty string are falsy.\<close>

definition relevance_of :: "string option \<Rightarrow> exn + int" where
  "relevance_of f = (case f of None \<Rightarrow> Inr 0 | Some s \<Rightarrow> if s = [] then Inr 0 else py_int s)"

type_synonym by_query = "(string \<times> candidate list) list"

text \<open>\<^verbatim>\<open>by_query[q].append(c)\<close> on a \<^verbatim>\<open>defaultdict(list)\<close>.\<close>

definition append_candidate :: "string \<Rightarrow> candidate \<Rightarrow> by_query \<Rightarrow> by_query" where
  "append_candidate q c bq =
     AList.update q ((case map_of bq q of None \<Rightarrow> [] | Some cs \<Rightarrow> cs) @ [c]) bq"

fun group_rows :: "row list \<Rightarrow> by_query \<Rightarrow> exn + by_query" where
  "group_rows [] bq = Inr bq"
| "group_rows (r # rs) bq =
     (case relevance_of (Relevance r) of
        Inl e \<Rightarrow> Inl e
      | Inr rel \<Rightarrow> group_rows rs (append_candidate (Query r) \<lparr>url = GitHubUrl r, relevance = rel\<rparr> bq))"

definition py_rows :: "row list \<Rightarrow> row list" where
  "py_rows rows = filter (\<lambda>r. Language r = ''Python'') rows"

definition load :: "row list \<Rightarrow> exn + by_query" where
  "load rows = group_rows (py_rows rows) []"

subsection \<open>Query selector\<close>

definition num_positives :: "candidate list \<Rightarrow> int" where
  "num_positives cs = sum_list (map (\<lambda>c. 1) (filter (\<lambda>c. relevance c \<ge> RELEVANCE_THRESHOLD) cs))"

text \<open>\<^verbatim>\<open>sorted\<close> is stable, as \<^const>\<open>sort_key\<close> is.\<close>

definition good_queries :: "by_query \<Rightarrow> by_query" where
  "good_queries bq =
     slice_to
       (sort_key (\<lambda>x. - num_positives (snd x))
          (filter (\<lambda>(q, cs). num_positives cs \<ge> MIN_POSITIVES) bq))
       TARGET_QUERIES"

subsection \<open>Snippet resolver\<close>

text \<open>
  The pattern of \<open>github_url_to_raw\<close>, matched from the start of the string as \<^verbatim>\<open>re.match\<close>
  does:
  \<^verbatim>\<open>https://github\.com/([^/]+)/([^/]+)/blob/([^/]+)/(.+?)(?:#L(\d+)(?:-L(\d+))?)?$\<close>
  A group \<^verbatim>\<open>([^/]+)/\<close> can only be the non-empty run up to the next slash. \<^verbatim>\<open>$\<close> holds at the
  end of the string and before a newline that ends it. The lazy \<^verbatim>\<open>(.+?)\<close> takes the
  shortest non-empty prefix without a newline after which the rest is a fragment that
  reaches \<^verbatim>\<open>$\<close>; the greedy \<^verbatim>\<open>\d+\<close> cannot give a digit back, since neither \<^verbatim>\<open>-L\<close> nor \<^verbatim>\<open>$\<close>
  holds before a digit.
\<close>

definition strip_prefix :: "string \<Rightarrow> string \<Rightarrow> string option" where
  "strip_prefix p s = (if take (length p) s = p then Some (drop (length p) s) else None)"

definition split_slash :: "string \<Rightarrow> (string \<times> string) option" where
  "split_slash s =
     (let a = takeWhile (\<lambda>c. c \<noteq> CHR ''/'') s; r = dropWhile (\<lambda>c. c \<noteq> CHR ''/'') s
      in if a = [] \<or> r = [] then None else Some (a, tl r))"

definition at_end :: "string \<Rightarrow> bool" where
  "at_end s = (s = [] \<or> s = [CHR 0x0A])"

definition match_fragment :: "string \<Rightarrow> (string option \<times> string option) option" where
  "match_fragment s =
     (if at_end s then Some (None, None)
      else case strip_prefix ''#L'' s of
        None \<Rightarrow> None
      | Some s1 \<Rightarrow>
          (let l1 = takeWhile is_digit s1; s2 = dropWhile is_digit s1
           in if l1 = [] then None
              else if at_end s2 then Some (Some l1, None)
              else case strip_prefix ''-L'' s2 of
                None \<Rightarrow> None
              | Some s3 \<Rightarrow>
                  (let l2 = takeWhile is_digit s3; s4 = dropWhile is_digit s3
                   in if l2 \<noteq> [] \<and> at_end s4 then Some (Some l1, Some l2) else None)))"

fun match_path :: "string \<Rightarrow> string \<Rightarrow> (string \<times> string option \<times> string option) option" where
  "match_path path s =
     (case match_fragment s of
        Some (l1, l2) \<Rightarrow> Some (path, l1, l2)
      | None \<Rightarrow>
          (case s of
             [] \<Rightarrow> None
           | c # r \<Rightarrow> if c = CHR 0x0A then None else match_path (path @ [c]) r))"

definition match_url ::
  "string \<Rightarrow> (string \<times> string \<times> string \<times> string \<times> string option \<times> string option) option" where
  "match_url u =
     (case strip_prefix ''https://github.com/'' u of
        None \<Rightarrow> None
      | Some r0 \<Rightarrow>
     (case split_slash r0 of
        None \<Rightarrow> None
      | Some (owner, r1) \<Rightarrow>
     (case split_slash r1 of
        None \<Rightarrow> None
      | Some (repo, r2) \<Rightarrow>
     (case strip_prefix ''blob/'' r2 of
        None \<Rightarrow> None
      | Some r3 \<Rightarrow>
     (case split_slash r3 of
        None \<Rightarrow> None
      | Some (sha, r4) \<Rightarrow>
     (case r4 of
        [] \<Rightarrow> None
      | c # r \<Rightarrow>
          if c = CHR 0x0A then None
          else (case match_path [c] r of
                  None \<Rightarrow> None
                | Some (path, l1, l2) \<Rightarrow> Some (owner, repo, sha, path, l1, l2))))))))"

definition github_url_to_raw :: "string \<Rightarrow> exn + (string \<times> int \<times> int)" where
  "github_url_to_raw u =
     (case match_url u of
        None \<Rightarrow> Inl ValueError
      | Some (owner, repo, sha, path, l1, l2) \<Rightarrow>
          (let raw = ''https://raw.githubusercontent.com/'' @ owner @ ''/'' @ repo @ ''/'' @ sha
                       @ ''/'' @ path
           in case (case l1 of Some d \<Rightarrow> py_int d | None \<Rightarrow> Inr 1) of
                Inl e \<Rightarrow> Inl e
              | Inr start \<Rightarrow>
                  (case (case l2 of Some d \<Rightarrow> py_int d | None \<Rightarrow> Inr (start + 40)) of
                     Inl e \<Rightarrow> Inl e
                   | Inr endl \<Rightarrow> Inr (raw, start, endl))))"

text \<open>
  The network is a parameter: \<open>get raw_url\<close> is what
  \<^verbatim>\<open>urlopen(raw_url, timeout=FETCH_TIMEOUT).read().decode(errors="replace").splitlines()\<close>
  gives, the lines of the file or the exception raised. \<open>snippet_of\<close> is the rest of the
  \<^verbatim>\<open>try\<close> body once the lines are there, \<open>fetch_code_try\<close> the whole body, and \<open>fetch_code\<close>
  the function with its \<^verbatim>\<open>except Exception: return None\<close>.
\<close>

definition snippet_of :: "string list \<Rightarrow> int \<Rightarrow> int \<Rightarrow> string option" where
  "snippet_of lines start endl =
     (let start' = max 0 (start - 1);
          endl' = min (len lines) endl;
          snippet = strip (join_nl (slice lines start' endl'))
      in if len snippet < 30 then None else Some (slice_to snippet 2000))"

definition fetch_code_try :: "(string \<Rightarrow> exn + string list) \<Rightarrow> string \<Rightarrow> exn + string option" where
  "fetch_code_try get u =
     (case github_url_to_raw u of
        Inl e \<Rightarrow> Inl e
      | Inr (raw_url, start, endl) \<Rightarrow>
          (case get raw_url of
             Inl e \<Rightarrow> Inl e
           | Inr lines \<Rightarrow> Inr (snippet_of lines start endl)))"

definition fetch_code :: "(string \<Rightarrow> exn + string list) \<Rightarrow> string \<Rightarrow> string option" where
  "fetch_code get u = (case fetch_code_try get u of Inl e \<Rightarrow> None | Inr r \<Rightarrow> r)"

subsection \<open>Fetch jobs and the worker pool\<close>

type_synonym fetch_job = "string \<times> string \<times> int"

definition fetch_jobs :: "by_query \<Rightarrow> fetch_job list" where
  "fetch_jobs gq =
     concat (map (\<lambda>(query, candidates).
                    map (\<lambda>c. (query, url c, relevance c)) (selected candidates)) gq)"

text \<open>
  \<^verbatim>\<open>futures\<close> holds one future per fetch job, in submission order: the dictionary is keyed
  by the future objects, which are all different. A future is modelled by the URL its call
  \<^verbatim>\<open>fetch_code(url)\<close> was given, the result of that call, and the job. \<open>fetch i u\<close> is what the
  \<open>i\<close>-th submitted call returns for \<open>u\<close>: over a real network two calls for one URL may
  differ. \<^verbatim>\<open>as_completed\<close> yields every future once, in an order the pool decides; \<open>collect\<close>
  is the loop over that order.
\<close>

type_synonym future = "string \<times> string option \<times> fetch_job"

definition submit_all :: "(nat \<Rightarrow> string \<Rightarrow> string option) \<Rightarrow> fetch_job list \<Rightarrow> future list" where
  "submit_all fetch jobs =
     map (\<lambda>(i, (query, u, rel)). (u, fetch i u, (query, u, rel))) (enumerate 0 jobs)"

definition fetched_urls :: "future list \<Rightarrow> string list" where
  "fetched_urls futures = map fst futures"

type_synonym results = "string \<rightharpoonup> string option"

definition collect :: "future list \<Rightarrow> results" where
  "collect completed =
     fold (\<lambda>(called, res, (query, u, rel)) results. results(u \<mapsto> res)) completed Map.empty"

text \<open>\<^verbatim>\<open>results.get(url)\<close>: \<open>None\<close> for a missing key and for a stored \<open>None\<close>.\<close>

definition results_get :: "results \<Rightarrow> string \<Rightarrow> string option" where
  "results_get results u = (case results u of None \<Rightarrow> None | Some v \<Rightarrow> v)"

subsection \<open>Dataset assembler\<close>

record chunk =
  chunk_id :: string
  query_id :: string
  chunk_relevance :: int
  source_url :: string
  code :: string

record eval_query =
  q_id :: string
  query :: string
  relevantIds :: "string list"
  relevanceScores :: "(string \<times> int) list"
  chunkIds :: "string list"

text \<open>
  The fields \<^verbatim>\<open>id\<close> and \<^verbatim>\<open>relevance\<close> of a chunk are \<open>chunk_id\<close> and \<open>chunk_relevance\<close>, the
  \<^verbatim>\<open>id\<close> of a query is \<open>q_id\<close>. \<^verbatim>\<open>chunk_counter\<close> is a \<^verbatim>\<open>defaultdict(int)\<close>: a function that
  is 0 where nothing was counted. The state of the outer loop is
  \<open>(chunk_counter, queries_raw, chunks_raw)\<close>.
\<close>

type_synonym counter = "string \<Rightarrow> nat"

fun q_chunks_loop ::
  "results \<Rightarrow> string \<Rightarrow> candidate list \<Rightarrow> counter \<times> chunk list \<Rightarrow> counter \<times> chunk list" where
  "q_chunks_loop results qid [] st = st"
| "q_chunks_loop results qid (c # cs) (chunk_counter, q_chunks) =
     (case results_get results (url c) of
        None \<Rightarrow> q_chunks_loop results qid cs (chunk_counter, q_chunks)
      | Some snippet \<Rightarrow>
          if snippet = [] then q_chunks_loop results qid cs (chunk_counter, q_chunks)
          else
            (let chunk_counter' = chunk_counter(qid := chunk_counter qid + 1);
                 cid = qid @ ''_c'' @ fmt_02d (chunk_counter' qid)
             in q_chunks_loop results qid cs
                  (chunk_counter',
                   q_chunks @ [\<lparr>chunk_id = cid, query_id = qid, chunk_relevance = relevance c,
                                source_url = url c, code = snippet\<rparr>])))"

type_synonym assembly = "counter \<times> eval_query list \<times> chunk list"

definition assemble_step :: "results \<Rightarrow> nat \<times> string \<times> candidate list \<Rightarrow> assembly \<Rightarrow> assembly" where
  "assemble_step results = (\<lambda>(qi, (q, candidates)) (chunk_counter, queries_raw, chunks_raw).
     (let qid = ''q_'' @ fmt_02d qi;
          (chunk_counter', q_chunks) =
             q_chunks_loop results qid (selected candidates) (chunk_counter, [])
      in if q_chunks = [] then (chunk_counter', queries_raw, chunks_raw)
         else
           (let relevant_ids =
                  map chunk_id
                    (filter (\<lambda>c. chunk_relevance c \<ge> RELEVANCE_THRESHOLD) q_chunks)
            in if len relevant_ids < MIN_POSITIVES then (chunk_counter', queries_raw, chunks_raw)
               else
                 (let relevance_scores =
                        fold (\<lambda>c d. AList.update (chunk_id c) (chunk_relevance c) d) q_chunks []
                  in (chunk_counter',
                      queries_raw @ [\<lparr>q_id = qid, query = q, relevantIds = relevant_ids,
                                       relevanceScores = relevance_scores,
                                       chunkIds = map chunk_id q_chunks\<rparr>],
                      chunks_raw @ q_chunks)))))"

definition assemble :: "results \<Rightarrow> by_query \<Rightarrow> eval_query list \<times> chunk list" where
  "assemble results gq =
     snd (fold (assemble_step results) (enumerate 0 gq) (\<lambda>qid. 0, [], []))"

subsection \<open>The run, up to the embedding stage\<close>

text \<open>
  \<open>completed\<close> is the order in which \<^verbatim>\<open>as_completed\<close> hands the futures back. The result is
  \<open>(queries_raw, chunks_raw)\<close>, or the exception that ended the script while loading.
\<close>

definition run :: "row list \<Rightarrow> future list \<Rightarrow> exn + (eval_query list \<times> chunk list)" where
  "run rows completed =
     (case load rows of
        Inl e \<Rightarrow> Inl e
      | Inr bq \<Rightarrow> Inr (assemble (collect completed) (good_queries bq)))"

subsection \<open>Notions used in the statements and proofs\<close>

text \<open>
  The positive count of a query, in the words of the selection rule: the number of its
  candidates whose relevance is at least \<open>RELEVANCE_THRESHOLD\<close>.
\<close>

definition positive_count :: "candidate list \<Rightarrow> int" where
  "positive_count cs = int (length (filter (\<lambda>c. relevance c \<ge> RELEVANCE_THRESHOLD) cs))"

text \<open>A group \<^verbatim>\<open>(\d+)\<close> that took part in the match holds one digit or more.\<close>

definition all_digits :: "string option \<Rightarrow> bool" where
  "all_digits l = (case l of None \<Rightarrow> True | Some d \<Rightarrow> d \<noteq> [] \<and> (\<forall>c \<in> set d. is_digit c))"

text \<open>The URL of a fetch job, and the body of the loop over the completed futures.\<close>

definition job_url :: "fetch_job \<Rightarrow> string" where
  "job_url job = fst (snd job)"

definition store :: "future \<Rightarrow> results \<Rightarrow> results" where
  "store = (\<lambda>(called, res, (query, u, rel)) results. results(u \<mapsto> res))"

text \<open>
  What the assembler computes for one query, written without the loop state: the query id,
  whether a candidate resolved, the chunk made from the \<open>k\<close>-th resolved candidate, the chunks
  of a query, the fields of its entry, the test that keeps it, and the kept queries of a
  run with their index and chunks. \<open>resolved_positives\<close> counts the positives of a query
  that resolved.
\<close>

definition qid_of :: "nat \<Rightarrow> string" where
  "qid_of qi = ''q_'' @ fmt_02d qi"

definition resolves :: "results \<Rightarrow> candidate \<Rightarrow> bool" where
  "resolves results c = (case results_get results (url c) of None \<Rightarrow> False | Some s \<Rightarrow> s \<noteq> [])"

definition chunk_of :: "results \<Rightarrow> string \<Rightarrow> nat \<times> candidate \<Rightarrow> chunk" where
  "chunk_of results qid = (\<lambda>(k, c).
     \<lparr>chunk_id = qid @ ''_c'' @ fmt_02d k, query_id = qid, chunk_relevance = relevance c,
      source_url = url c, code = the (results_get results (url c))\<rparr>)"

definition q_chunks_of :: "results \<Rightarrow> nat \<Rightarrow> candidate list \<Rightarrow> chunk list" where
  "q_chunks_of results qi candidates =
     map (chunk_of results (qid_of qi)) (enumerate 1 (filter (resolves results) (selected candidates)))"

definition relevant_of :: "chunk list \<Rightarrow> string list" where
  "relevant_of q_chunks =
     map chunk_id (filter (\<lambda>c. chunk_relevance c \<ge> RELEVANCE_THRESHOLD) q_chunks)"

definition scores_of :: "chunk list \<Rightarrow> (string \<times> int) list" where
  "scores_of q_chunks = fold (\<lambda>c d. AList.update (chunk_id c) (chunk_relevance c) d) q_chunks []"

definition query_of :: "string \<Rightarrow> string \<Rightarrow> chunk list \<Rightarrow> eval_query" where
  "query_of qid q q_chunks =
     \<lparr>q_id = qid, query = q, relevantIds = relevant_of q_chunks,
      relevanceScores = scores_of q_chunks, chunkIds = map chunk_id q_chunks\<rparr>"

definition kept :: "chunk list \<Rightarrow> bool" where
  "kept q_chunks = (q_chunks \<noteq> [] \<and> \<not> len (relevant_of q_chunks) < MIN_POSITIVES)"

definition entries :: "results \<Rightarrow> nat \<Rightarrow> by_query \<Rightarrow> (nat \<times> string \<times> chunk list) list" where
  "entries results n gq =
     filter (\<lambda>(qi, q, q_chunks). kept q_chunks)
       (map (\<lambda>(qi, (q, candidates)). (qi, q, q_chunks_of results qi candidates)) (enumerate n gq))"

definition resolved_positives :: "results \<Rightarrow> candidate list \<Rightarrow> int" where
  "resolved_positives results candidates =
     len (filter (\<lambda>c. relevance c \<ge> RELEVANCE_THRESHOLD \<and> resolves results c) candidates)"








subsection \<open>Example inputs\<close>



text \<open>
  A feed of twenty-seven queries: first \<open>noise\<close>, with three candidates and no positive; then
  \<open>a\<close> to \<open>z\<close>, each with two positives, \<open>z\<close> with three, and \<open>a\<close> with five negatives more.
\<close>

definition feed27 :: by_query where
  "feed27 =
     (''noise'', replicate 3 \<lparr>url = ''u'', relevance = 0\<rparr>)
     # map (\<lambda>i. ([char_of (97 + i)],
                  replicate (if i = 25 then 3 else 2) \<lparr>url = ''u'', relevance = 2\<rparr>
                  @ (if i = 0 then replicate 5 \<lparr>url = ''v'', relevance = 1\<rparr> else [])))
           [0 ..< 26 :: nat]"


definition reversed_locator :: string where
  "reversed_locator = ''https://github.com/o/r/blob/s/p.py#L10-L5''"

definition raw_p :: string where
  "raw_p = ''https://raw.githubusercontent.com/o/r/s/p.py''"

definition file50 :: "string list" where
  "file50 = map (\<lambda>i. ''line '' @ fmt_02d i) [1 ..< 51]"

definition serve50 :: "string \<Rightarrow> exn + string list" where
  "serve50 raw_url = (if raw_url = raw_p then Inr file50 else Inl FetchError)"

text \<open>
  Two queries that share the locator \<open>u1\<close>; a network that is down; one whose first call
  fails and whose later calls succeed.
\<close>

definition shared_feed :: by_query where
  "shared_feed =
     [(''parse json'', [\<lparr>url = ''u1'', relevance = 3\<rparr>, \<lparr>url = ''u2'', relevance = 3\<rparr>]),
      (''load json'', [\<lparr>url = ''u1'', relevance = 2\<rparr>, \<lparr>url = ''u3'', relevance = 2\<rparr>])]"

definition offline :: "nat \<Rightarrow> string \<Rightarrow> string option" where
  "offline i u = None"

definition flaky :: "nat \<Rightarrow> string \<Rightarrow> string option" where
  "flaky i u = (if i = 0 then None else Some (''text of '' @ u))"

text \<open>
  The feed of scenario A: one query with candidates of relevance 3, 3 and 1; a mocked fetch
  that resolves every locator; the futures of that run in submission order.
\<close>

definition scenario_rows :: "row list" where
  "scenario_rows =
     [\<lparr>Language = ''Python'', Query = ''parse json'', GitHubUrl = ''u1'', Relevance = Some ''3''\<rparr>,
      \<lparr>Language = ''Python'', Query = ''parse json'', GitHubUrl = ''u2'', Relevance = Some ''3''\<rparr>,
      \<lparr>Language = ''Python'', Query = ''parse json'', GitHubUrl = ''u3'', Relevance = Some ''1''\<rparr>]"

definition scenario_feed :: by_query where
  "scenario_feed =
     [(''parse json'', [\<lparr>url = ''u1'', relevance = 3\<rparr>, \<lparr>url = ''u2'', relevance = 3\<rparr>,
                        \<lparr>url = ''u3'', relevance = 1\<rparr>])]"

definition mock_all :: "string \<Rightarrow> string option" where
  "mock_all u = Some (''def parse(s): return json.loads(s)  # '' @ u)"

definition scenario_futures :: "future list" where
  "scenario_futures = submit_all (\<lambda>i. mock_all) (fetch_jobs (good_queries scenario_feed))"

text \<open>
  Scenario B: the mocked fetch fails for \<open>u2\<close>. The results maps of scenarios A and B, and
  of the two queries that share a locator, every fetch resolving.
\<close>

definition mock_one_down :: "string \<Rightarrow> string option" where
  "mock_one_down u = (if u = ''u2'' then None else mock_all u)"

definition scenario_results :: results where
  "scenario_results = collect scenario_futures"

definition degraded_results :: results where
  "degraded_results =
     collect (submit_all (\<lambda>i. mock_one_down) (fetch_jobs (good_queries scenario_feed)))"

definition shared_results :: results where
  "shared_results = collect (submit_all (\<lambda>i. mock_all) (fetch_jobs shared_feed))"

section \<open>Properties\<close>

subsection \<open>Slices\<close>

lemma slice_to_nonneg: "0 \<le> b \<Longrightarrow> slice_to xs b = take (nat b) xs"
  by (auto simp add: slice_to_def slice_def slice_index_def min_def)

lemma slice_to_neg: "b < 0 \<Longrightarrow> slice_to xs b = take (nat (int (length xs) + b)) xs"
  by (simp add: slice_to_def slice_def slice_index_def)

lemma slice_nonneg:
  "0 \<le> a \<Longrightarrow> 0 \<le> b \<Longrightarrow> slice xs a b = take (nat b - nat a) (drop (nat a) xs)"
  by (auto simp add: slice_def slice_index_def Let_def min_def)

subsection \<open>Sampling\<close>

lemma selected_within_cap:
  "len (positives cs) \<le> MAX_CANDIDATES \<Longrightarrow>
   selected cs = positives cs @ take (nat (MAX_CANDIDATES - len (positives cs))) (negatives cs)"
  by (simp add: selected_def slice_to_nonneg)

lemma selected_over_cap:
  "len (positives cs) > MAX_CANDIDATES \<Longrightarrow>
   selected cs = positives cs
     @ take (nat (len (negatives cs) - (len (positives cs) - MAX_CANDIDATES))) (negatives cs)"
  by (simp add: selected_def slice_to_neg len_def algebra_simps)

lemma positives_kept: "set (positives cs) \<subseteq> set (selected cs)"
  by (simp add: selected_def)

lemma selected_subset: "set (selected cs) \<subseteq> set cs"
proof -
  have "set (slice_to (negatives cs) b) \<subseteq> set cs" for b
    by (auto simp add: slice_to_def slice_def Let_def negatives_def
        dest!: in_set_takeD in_set_dropD)
  then show ?thesis
    by (auto simp add: selected_def positives_def)
qed

text \<open>
  C1. The claim: the sampled list is all positives followed by the negatives cut to
  \<open>max 0 (MAX_CANDIDATES - |positives|)\<close>, so that no negative is sampled once the positives
  exceed the cap, and its size is \<open>min (|positives| + max 0 (MAX_CANDIDATES - |positives|)) |candidates|\<close>.
  The script writes the cut as \<^verbatim>\<open>negatives[:MAX_CANDIDATES - len(positives)]\<close>, and a negative
  stop counts from the end of the list: with thirteen positives and two negatives the stop is
  \<open>-1\<close>, the first negative is sampled and the sample has fourteen entries, where the claim
  gives thirteen and no negative.
\<close>

theorem selected_over_cap_keeps_negative:
  "len (positives over_cap) = 13
   \<and> negatives over_cap = [\<lparr>url = ''n1'', relevance = 0\<rparr>, \<lparr>url = ''n2'', relevance = 0\<rparr>]
   \<and> selected over_cap = positives over_cap @ [\<lparr>url = ''n1'', relevance = 0\<rparr>]
   \<and> len (selected over_cap) = 14
   \<and> min (len (positives over_cap) + max 0 (MAX_CANDIDATES - len (positives over_cap)))
          (len over_cap) = 13"
  by (simp add: over_cap_def selected_def positives_def negatives_def slice_to_def slice_def
      slice_index_def len_def MAX_CANDIDATES_def RELEVANCE_THRESHOLD_def upt_rec)

subsection \<open>Annotation loading\<close>






subsection \<open>Query selection\<close>

lemma num_positives_len: "num_positives cs = len (positives cs)"
proof -
  have "sum_list (map (\<lambda>c. 1::int) xs) = int (length xs)" for xs :: "candidate list"
    by (induction xs) simp_all
  then show ?thesis
    by (simp add: num_positives_def positives_def len_def)
qed

lemma good_queries_take:
  "good_queries bq =
     take 25 (sort_key (\<lambda>x. - num_positives (snd x))
                (filter (\<lambda>x. num_positives (snd x) \<ge> MIN_POSITIVES) bq))"
  by (simp add: good_queries_def slice_to_nonneg TARGET_QUERIES_def case_prod_unfold)

lemma sorted_take_drop_le:
  assumes "sorted (map f ys)" and "y \<in> set (take n ys)" and "x \<in> set (drop n ys)"
  shows "f y \<le> f x"
proof -
  have "sorted (map f (take n ys) @ map f (drop n ys))"
    using assms(1) by (simp flip: map_append)
  then show ?thesis
    using assms(2,3) by (auto simp add: sorted_append)
qed

lemma good_queries_sorted_prefix:
  "set (good_queries bq) \<subseteq> {x \<in> set bq. num_positives (snd x) \<ge> MIN_POSITIVES}
   \<and> length (good_queries bq) =
       min (nat TARGET_QUERIES) (length (filter (\<lambda>x. num_positives (snd x) \<ge> MIN_POSITIVES) bq))
   \<and> (\<forall>x \<in> set bq. \<forall>y \<in> set (good_queries bq).
         num_positives (snd x) \<ge> MIN_POSITIVES \<and> x \<notin> set (good_queries bq) \<longrightarrow>
         num_positives (snd x) \<le> num_positives (snd y))
   \<and> sorted (rev (map (\<lambda>x. num_positives (snd x)) (good_queries bq)))
   \<and> (\<forall>k. prefix (filter (\<lambda>x. num_positives (snd x) = k) (good_queries bq))
                  (filter (\<lambda>x. num_positives (snd x) = k) bq))"
proof -
  define f where "f = (\<lambda>x :: string \<times> candidate list. - num_positives (snd x))"
  define qs where "qs = filter (\<lambda>x. num_positives (snd x) \<ge> MIN_POSITIVES) bq"
  define ys where "ys = sort_key f qs"
  have gq: "good_queries bq = take 25 ys"
    by (simp add: good_queries_take ys_def qs_def f_def)
  have set_ys: "set ys = set qs"
    by (simp add: ys_def)
  have sorted_ys: "sorted (map f ys)"
    by (simp add: ys_def)
  have 1: "set (good_queries bq) \<subseteq> {x \<in> set bq. num_positives (snd x) \<ge> MIN_POSITIVES}"
    using set_take_subset [of 25 ys] by (auto simp add: gq set_ys qs_def)
  have 2: "length (good_queries bq) = min (nat TARGET_QUERIES) (length qs)"
    by (simp add: gq ys_def TARGET_QUERIES_def min.commute)
  have 3: "num_positives (snd x) \<le> num_positives (snd y)"
    if "x \<in> set bq" "y \<in> set (good_queries bq)" "num_positives (snd x) \<ge> MIN_POSITIVES"
      "x \<notin> set (good_queries bq)" for x y
  proof -
    have "x \<in> set (take 25 ys @ drop 25 ys)"
      using that(1,3) by (simp add: set_ys qs_def)
    then have "x \<in> set (drop 25 ys)"
      using that(4) unfolding gq set_append by blast
    then have "f y \<le> f x"
      using sorted_take_drop_le [OF sorted_ys] that(2) by (simp add: gq)
    then show ?thesis by (simp add: f_def)
  qed
  have "sorted (map f (take 25 ys))"
    using sorted_wrt_take [OF sorted_ys, of 25] by (simp add: take_map)
  then have "sorted (map (\<lambda>x. - num_positives (snd x)) (good_queries bq))"
    by (simp add: gq f_def)
  then have 4: "sorted (rev (map (\<lambda>x. num_positives (snd x)) (good_queries bq)))"
    by (simp add: sorted_wrt_rev sorted_wrt_map)
  have 5: "prefix (filter (\<lambda>x. num_positives (snd x) = k) (good_queries bq))
                  (filter (\<lambda>x. num_positives (snd x) = k) bq)" for k
  proof -
    have eq: "(\<lambda>x. num_positives (snd x) = k) = (\<lambda>x. f x = - k)"
      by (auto simp add: f_def)
    have "prefix (filter (\<lambda>x. f x = - k) (take 25 ys)) (filter (\<lambda>x. f x = - k) ys)"
      by (rule filter_mono_prefix) (rule take_is_prefix)
    also have "filter (\<lambda>x. f x = - k) ys = filter (\<lambda>x. f x = - k) qs"
      unfolding ys_def by (rule sort_key_stable)
    also have "prefix \<dots> (filter (\<lambda>x. f x = - k) bq)"
    proof (cases "k \<ge> MIN_POSITIVES")
      case True
      then have "filter (\<lambda>x. f x = - k) qs = filter (\<lambda>x. f x = - k) bq"
        unfolding qs_def filter_filter by (intro filter_cong) (auto simp add: f_def)
      then show ?thesis by simp
    next
      case False
      then have "filter (\<lambda>x. f x = - k) qs = []"
        unfolding qs_def filter_filter by (auto simp add: f_def filter_empty_conv)
      then show ?thesis by simp
    qed
    finally show ?thesis by (simp add: gq eq)
  qed
  from 1 2 3 4 5 show ?thesis
    unfolding qs_def by blast
qed

lemma num_positives_count: "num_positives cs = positive_count cs"
  by (simp add: num_positives_len positive_count_def len_def positives_def)

text \<open>
  C6. With the positive count of a query the number of its candidates of relevance at least
  \<open>RELEVANCE_THRESHOLD\<close>: the selected queries all have a positive count of \<open>MIN_POSITIVES\<close> or
  more; there are \<open>TARGET_QUERIES\<close> of them, or all that qualify when fewer do; a qualifying
  query left out has no higher positive count than any selected one; the selection is in
  descending order of positive count; and among queries of one positive count the selected
  ones are the first of the feed, in feed order. The selection is the function
  \<open>good_queries\<close> of the loaded mapping.
\<close>

theorem good_queries_top:
  "set (good_queries bq) \<subseteq> {x \<in> set bq. positive_count (snd x) \<ge> MIN_POSITIVES}
   \<and> length (good_queries bq) =
       min (nat TARGET_QUERIES) (length (filter (\<lambda>x. positive_count (snd x) \<ge> MIN_POSITIVES) bq))
   \<and> (\<forall>x \<in> set bq. \<forall>y \<in> set (good_queries bq).
         positive_count (snd x) \<ge> MIN_POSITIVES \<and> x \<notin> set (good_queries bq) \<longrightarrow>
         positive_count (snd x) \<le> positive_count (snd y))
   \<and> sorted (rev (map (\<lambda>x. positive_count (snd x)) (good_queries bq)))
   \<and> (\<forall>k. prefix (filter (\<lambda>x. positive_count (snd x) = k) (good_queries bq))
                  (filter (\<lambda>x. positive_count (snd x) = k) bq))"
  using good_queries_sorted_prefix [of bq] unfolding num_positives_count .

lemma good_queries_feed27: "good_queries feed27 = feed27 ! 26 # take 24 (tl feed27)"
  by code_simp

lemma feed27_facts:
  "feed27 ! 0 \<in> set feed27"
  "positive_count (snd (feed27 ! 0)) = 0"
  "length (snd (feed27 ! 0)) = 3"
  "feed27 ! 25 \<in> set feed27"
  "feed27 ! 25 \<notin> set (feed27 ! 26 # take 24 (tl feed27))"
  "(feed27 ! 26 # take 24 (tl feed27)) ! 1 = feed27 ! 1"
  "positive_count (snd (feed27 ! 1)) = 2"
  "length (snd (feed27 ! 1)) = 7"
  "positive_count (snd (feed27 ! 25)) = 2"
  "positive_count (snd (feed27 ! 26)) = 3"
  "length (filter (\<lambda>x. positive_count (snd x) \<ge> MIN_POSITIVES) feed27) = 26"
  by code_simp+

theorem good_queries_top_witness:
  "feed27 ! 0 \<in> set feed27 \<and> length (snd (feed27 ! 0)) = 3
   \<and> positive_count (snd (feed27 ! 0)) < MIN_POSITIVES
   \<and> feed27 ! 0 \<notin> set (good_queries feed27)
   \<and> hd (good_queries feed27) = feed27 ! 26
   \<and> good_queries feed27 ! 1 = feed27 ! 1 \<and> length (snd (feed27 ! 1)) = 7
   \<and> feed27 ! 25 \<in> set feed27 \<and> positive_count (snd (feed27 ! 25)) \<ge> MIN_POSITIVES
   \<and> feed27 ! 25 \<notin> set (good_queries feed27)
   \<and> positive_count (snd (feed27 ! 25)) \<le> positive_count (snd (feed27 ! 26))
   \<and> length (good_queries feed27) = 25"
proof -
  note top = good_queries_top [of feed27]
  have noise: "feed27 ! 0 \<notin> set (good_queries feed27)"
    using top feed27_facts(2) by (auto simp add: MIN_POSITIVES_def)
  have len: "length (good_queries feed27) = 25"
    using top by (simp add: feed27_facts TARGET_QUERIES_def)
  have z: "feed27 ! 26 \<in> set (good_queries feed27)"
    by (simp add: good_queries_feed27)
  have y: "feed27 ! 25 \<notin> set (good_queries feed27)"
    unfolding good_queries_feed27 by (rule feed27_facts(5))
  have "\<forall>x \<in> set feed27. \<forall>y \<in> set (good_queries feed27).
         positive_count (snd x) \<ge> MIN_POSITIVES \<and> x \<notin> set (good_queries feed27) \<longrightarrow>
         positive_count (snd x) \<le> positive_count (snd y)"
    using top by blast
  then have "positive_count (snd (feed27 ! 25)) \<ge> MIN_POSITIVES
         \<and> feed27 ! 25 \<notin> set (good_queries feed27) \<longrightarrow>
         positive_count (snd (feed27 ! 25)) \<le> positive_count (snd (feed27 ! 26))"
    using feed27_facts(4) z by blast
  then have "positive_count (snd (feed27 ! 25)) \<le> positive_count (snd (feed27 ! 26))"
    using y feed27_facts(9) by (simp add: MIN_POSITIVES_def)
  moreover have "hd (good_queries feed27) = feed27 ! 26"
    unfolding good_queries_feed27 by (rule list.sel)
  moreover have "good_queries feed27 ! 1 = feed27 ! 1"
    unfolding good_queries_feed27 by (rule feed27_facts(6))
  ultimately show ?thesis
    using noise len y feed27_facts by (simp add: MIN_POSITIVES_def)
qed

subsection \<open>Identifiers\<close>

lemma digit_val_digit_char: "d < 10 \<Longrightarrow> digit_val (digit_char d) = d"
  by (simp add: digit_val_def digit_char_def)

lemma is_digit_digit_char: "d < 10 \<Longrightarrow> is_digit (digit_char d)"
  by (simp add: is_digit_def digit_char_def)

lemma dec_value_snoc: "dec_value (ds @ [c]) = 10 * dec_value ds + digit_val c"
  by (simp add: dec_value_def)

lemma dec_value_dec: "dec_value (dec n) = n"
proof (induction n rule: dec.induct)
  case (1 n)
  show ?case
  proof (cases "n < 10")
    case True
    then show ?thesis
      by (subst dec.simps) (simp add: dec_value_def digit_val_digit_char)
  next
    case False
    then have "dec_value (dec n) = 10 * dec_value (dec (n div 10)) + digit_val (digit_char (n mod 10))"
      by (subst dec.simps) (simp add: dec_value_snoc)
    then show ?thesis
      using False "1.IH" by (simp add: digit_val_digit_char)
  qed
qed

lemma dec_digits: "\<forall>c \<in> set (dec n). is_digit c"
proof (induction n rule: dec.induct)
  case (1 n)
  show ?case
  proof (cases "n < 10")
    case True
    then show ?thesis
      by (subst dec.simps) (simp add: is_digit_digit_char)
  next
    case False
    then show ?thesis
      using "1.IH" by (subst dec.simps) (simp add: is_digit_digit_char)
  qed
qed

lemma dec_value_fmt: "dec_value (fmt_02d n) = n"
proof -
  have "dec_value (CHR ''0'' # ds) = dec_value ds" for ds
    by (simp add: dec_value_def digit_val_def)
  then show ?thesis
    by (simp add: fmt_02d_def dec_value_dec)
qed

lemma fmt_02d_inj: "fmt_02d m = fmt_02d n \<Longrightarrow> m = n"
  by (metis dec_value_fmt)

lemma fmt_02d_digits: "\<forall>c \<in> set (fmt_02d n). is_digit c"
  using dec_digits [of n] by (simp add: fmt_02d_def is_digit_def)

lemma qid_of_inj: "qid_of i = qid_of j \<Longrightarrow> i = j"
  by (simp add: qid_of_def fmt_02d_inj)

lemma digits_sep_eq:
  assumes "xs @ CHR ''_'' # ys = xs' @ CHR ''_'' # ys'"
    and "\<forall>c \<in> set xs. is_digit c" and "\<forall>c \<in> set xs'. is_digit c"
  shows "xs = xs' \<and> ys = ys'"
proof -
  have nd: "\<not> is_digit CHR ''_''" by (simp add: is_digit_def)
  have "takeWhile is_digit (xs @ CHR ''_'' # ys) = xs"
    using assms(2) nd by (simp add: takeWhile_append2)
  moreover have "takeWhile is_digit (xs' @ CHR ''_'' # ys') = xs'"
    using assms(3) nd by (simp add: takeWhile_append2)
  ultimately have "xs = xs'" using assms(1) by simp
  then show ?thesis using assms(1) by simp
qed

lemma chunk_id_inj:
  assumes "qid_of i @ ''_c'' @ fmt_02d k = qid_of j @ ''_c'' @ fmt_02d l"
  shows "i = j \<and> k = l"
proof -
  from assms have "fmt_02d i @ CHR ''_'' # (CHR ''c'' # fmt_02d k)
      = fmt_02d j @ CHR ''_'' # (CHR ''c'' # fmt_02d l)"
    by (simp add: qid_of_def)
  then have "fmt_02d i = fmt_02d j \<and> CHR ''c'' # fmt_02d k = CHR ''c'' # fmt_02d l"
    by (rule digits_sep_eq) (rule fmt_02d_digits)+
  then show ?thesis by (simp add: fmt_02d_inj)
qed

subsection \<open>Parsing a locator\<close>

lemma digit_not_int_space: "is_digit c \<Longrightarrow> \<not> is_int_space c"
  by (auto simp add: is_digit_def is_int_space_def Let_def)

lemma digit_not_sign: "is_digit c \<Longrightarrow> c \<noteq> CHR ''-'' \<and> c \<noteq> CHR ''+''"
  by (auto simp add: is_digit_def)

lemma strip_with_id:
  assumes "s \<noteq> []" "\<not> sp (hd s)" "\<not> sp (last s)"
  shows "strip_with sp s = s"
proof -
  have 1: "dropWhile sp s = s"
    using assms(1,2) by (cases s) simp_all
  have "rev s \<noteq> []" "\<not> sp (hd (rev s))"
    using assms(1,3) by (simp_all add: hd_rev)
  then have 2: "dropWhile sp (rev s) = rev s"
    by (cases "rev s") simp_all
  show ?thesis by (simp add: strip_with_def 1 2)
qed

lemma py_int_digits_nonneg:
  assumes "all_digits (Some d)" and "py_int d = Inr v"
  shows "0 \<le> v"
proof -
  from assms(1) have ne: "d \<noteq> []" and dig: "\<forall>c \<in> set d. is_digit c"
    by (simp_all add: all_digits_def)
  then have "is_digit (hd d)" "is_digit (last d)"
    by simp_all
  then have st: "strip_with is_int_space d = d" and sg: "hd d \<noteq> CHR ''-''" "hd d \<noteq> CHR ''+''"
    using ne by (simp_all add: strip_with_id digit_not_int_space digit_not_sign)
  obtain c r where d: "d = c # r" using ne by (cases d) auto
  have body: "(case d of [] \<Rightarrow> (False, [])
                | c # r \<Rightarrow> if c = CHR ''-'' then (True, r)
                           else if c = CHR ''+'' then (False, r) else (False, d)) = (False, d)"
    using sg by (simp add: d)
  show ?thesis
    using assms(2) unfolding py_int_def st Let_def body
    by (auto split: option.splits if_splits)
qed


lemma match_fragment_digits:
  "match_fragment s = Some (l1, l2) \<Longrightarrow> all_digits l1 \<and> all_digits l2"
  by (auto simp add: match_fragment_def all_digits_def Let_def
      split: if_splits option.splits dest: set_takeWhileD)


lemma match_path_digits:
  "match_path p s = Some (path, l1, l2) \<Longrightarrow> all_digits l1 \<and> all_digits l2"
proof (induction p s rule: match_path.induct)
  case (1 p s)
  show ?case
  proof (cases "match_fragment s")
    case None
    then show ?thesis
      using "1.prems" "1.IH" by (cases s) (auto split: if_splits)
  next
    case (Some a)
    then show ?thesis
      using "1.prems" match_fragment_digits [of s] by (cases a) auto
  qed
qed




lemma match_url_cases:
  assumes "match_url u = Some (owner, repo, sha, path, l1, l2)"
  obtains r0 r1 r2 r3 c r where
    "strip_prefix ''https://github.com/'' u = Some r0" "split_slash r0 = Some (owner, r1)"
    "split_slash r1 = Some (repo, r2)" "strip_prefix ''blob/'' r2 = Some r3"
    "split_slash r3 = Some (sha, c # r)" "c \<noteq> CHR 0x0A" "match_path [c] r = Some (path, l1, l2)"
proof -
  obtain r0 where 1: "strip_prefix ''https://github.com/'' u = Some r0"
    using assms by (cases "strip_prefix ''https://github.com/'' u") (simp_all add: match_url_def)
  obtain o' r1 where 2: "split_slash r0 = Some (o', r1)"
    using assms by (cases "split_slash r0") (auto simp add: match_url_def 1)
  obtain p' r2 where 3: "split_slash r1 = Some (p', r2)"
    using assms by (cases "split_slash r1") (auto simp add: match_url_def 1 2)
  obtain r3 where 4: "strip_prefix ''blob/'' r2 = Some r3"
    using assms by (cases "strip_prefix ''blob/'' r2") (simp_all add: match_url_def 1 2 3)
  obtain s' r4 where 5: "split_slash r3 = Some (s', r4)"
    using assms by (cases "split_slash r3") (auto simp add: match_url_def 1 2 3 4)
  have 6: "(case r4 of [] \<Rightarrow> None
            | c # r \<Rightarrow> if c = CHR 0x0A then None
                else (case match_path [c] r of None \<Rightarrow> None
                      | Some (path, l1, l2) \<Rightarrow> Some (o', p', s', path, l1, l2)))
           = Some (owner, repo, sha, path, l1, l2)"
    using assms by (simp add: match_url_def 1 2 3 4 5)
  then obtain c r where r4: "r4 = c # r" by (cases r4) simp_all
  from 6 have nl: "c \<noteq> CHR 0x0A" unfolding r4 by (simp split: if_splits)
  from 6 nl obtain x where 7: "match_path [c] r = Some x" and
      8: "(case x of (path, l1, l2) \<Rightarrow> Some (o', p', s', path, l1, l2)) = Some (owner, repo, sha, path, l1, l2)"
    unfolding r4 by (cases "match_path [c] r") simp_all
  from 8 have "o' = owner" "p' = repo" "s' = sha" "x = (path, l1, l2)"
    by (auto split: prod.splits)
  with 1 2 3 4 5 7 nl r4 show ?thesis
    by (intro that [of r0 r1 r2 r3 c r]) simp_all
qed

lemma match_url_digits:
  assumes "match_url u = Some (owner, repo, sha, path, l1, l2)"
  shows "all_digits l1 \<and> all_digits l2"
  using assms by (elim match_url_cases) (rule match_path_digits)


lemma github_url_to_raw_cases:
  assumes "github_url_to_raw u = Inr (raw, start, endl)"
  obtains owner repo sha path l1 l2 where
    "match_url u = Some (owner, repo, sha, path, l1, l2)"
    "raw = ''https://raw.githubusercontent.com/'' @ owner @ ''/'' @ repo @ ''/'' @ sha @ ''/'' @ path"
    "(case l1 of Some d \<Rightarrow> py_int d | None \<Rightarrow> Inr 1) = Inr start"
    "(case l2 of Some d \<Rightarrow> py_int d | None \<Rightarrow> Inr (start + 40)) = Inr endl"
proof -
  obtain owner repo sha path l1 l2 where m: "match_url u = Some (owner, repo, sha, path, l1, l2)"
    using assms by (cases "match_url u") (auto simp add: github_url_to_raw_def)
  obtain s where s: "(case l1 of Some d \<Rightarrow> py_int d | None \<Rightarrow> Inr 1) = Inr s"
    using assms
    by (cases "case l1 of Some d \<Rightarrow> py_int d | None \<Rightarrow> Inr 1")
      (simp_all add: github_url_to_raw_def m Let_def)
  obtain e where e: "(case l2 of Some d \<Rightarrow> py_int d | None \<Rightarrow> Inr (s + 40)) = Inr e"
    using assms
    by (cases "case l2 of Some d \<Rightarrow> py_int d | None \<Rightarrow> Inr (s + 40)")
      (simp_all add: github_url_to_raw_def m s Let_def)
  have eqs: "raw = ''https://raw.githubusercontent.com/'' @ owner @ ''/'' @ repo @ ''/'' @ sha @ ''/'' @ path"
      "s = start" "e = endl"
    using assms by (simp_all add: github_url_to_raw_def m s e Let_def)
  show ?thesis
    using that [OF m eqs(1) s [unfolded eqs(2)] e [unfolded eqs(2,3)]] .
qed

lemma github_url_to_raw_nonneg:
  assumes "github_url_to_raw u = Inr (raw, start, endl)"
  shows "0 \<le> start \<and> 0 \<le> endl"
proof -
  from assms obtain owner repo sha path l1 l2 where
    m: "match_url u = Some (owner, repo, sha, path, l1, l2)"
    and s: "(case l1 of Some d \<Rightarrow> py_int d | None \<Rightarrow> Inr 1) = Inr start"
    and e: "(case l2 of Some d \<Rightarrow> py_int d | None \<Rightarrow> Inr (start + 40)) = Inr endl"
    by (rule github_url_to_raw_cases)
  from match_url_digits [OF m] have d: "all_digits l1" "all_digits l2" by simp_all
  have 1: "0 \<le> start"
    using s d(1) by (cases l1) (auto dest: py_int_digits_nonneg)
  have 2: "0 \<le> endl"
    using e d(2) 1 by (cases l2) (auto dest: py_int_digits_nonneg)
  from 1 2 show ?thesis ..
qed


subsection \<open>Resolving a locator\<close>



lemma slice_lines_empty:
  assumes "0 \<le> endl" and "endl < start"
  shows "slice lines (max 0 (start - 1)) (min (len lines) endl) = []"
proof -
  have "slice lines (max 0 (start - 1)) (min (len lines) endl) =
        take (nat (min (len lines) endl) - nat (max 0 (start - 1))) (drop (nat (max 0 (start - 1))) lines)"
    using assms(1) by (intro slice_nonneg) (simp_all add: len_def)
  moreover have "nat (min (len lines) endl) - nat (max 0 (start - 1)) = 0"
    using assms by (simp add: len_def)
  ultimately show ?thesis by simp
qed

lemma fetch_code_parsed:
  assumes "github_url_to_raw u = Inr (raw, start, endl)" and "get raw = Inr lines"
  shows "fetch_code get u = snippet_of lines start endl"
  using assms by (simp add: fetch_code_def fetch_code_try_def)

lemma snippet_of_Some:
  assumes "snippet_of lines start endl = Some s"
  shows "30 \<le> length s \<and> length s \<le> 2000"
  using assms
  by (auto simp add: snippet_of_def Let_def slice_to_nonneg len_def split: if_splits)

text \<open>
  C4. \<open>fetch_code\<close> is the \<^verbatim>\<open>try\<close> body under \<^verbatim>\<open>except Exception: return None\<close>: whatever the
  URL and whatever the network does, an exception of the body (a locator that does not
  parse, a failing fetch) becomes \<open>None\<close>, and otherwise the body's own result is returned, a
  text of 30 to 2000 characters or \<open>None\<close>. A locator whose end line is before its start
  line, such as \<^verbatim>\<open>#L10-L5\<close>, gives an empty slice and so \<open>None\<close>, for every network.
\<close>

theorem fetch_code_total:
  "(\<forall>e. fetch_code_try get u = Inl e \<longrightarrow> fetch_code get u = None)
   \<and> (\<forall>r. fetch_code_try get u = Inr r \<longrightarrow> fetch_code get u = r)
   \<and> (\<forall>s. fetch_code get u = Some s \<longrightarrow> 30 \<le> length s \<and> length s \<le> 2000)
   \<and> (\<forall>raw start endl.
         github_url_to_raw u = Inr (raw, start, endl) \<and> endl < start \<longrightarrow> fetch_code get u = None)"
proof -
  have 1: "\<forall>e. fetch_code_try get u = Inl e \<longrightarrow> fetch_code get u = None"
    by (simp add: fetch_code_def)
  have 2: "\<forall>r. fetch_code_try get u = Inr r \<longrightarrow> fetch_code get u = r"
    by (simp add: fetch_code_def)
  have 3: "30 \<le> length s \<and> length s \<le> 2000" if "fetch_code get u = Some s" for s
  proof -
    from that obtain start endl lines where "snippet_of lines start endl = Some s"
      by (auto simp add: fetch_code_def fetch_code_try_def split: sum.splits)
    then show ?thesis by (rule snippet_of_Some)
  qed
  have 4: "fetch_code get u = None"
    if p: "github_url_to_raw u = Inr (raw, start, endl)" and lt: "endl < start" for raw start endl
  proof (cases "get raw")
    case (Inl e)
    then show ?thesis using p by (simp add: fetch_code_def fetch_code_try_def)
  next
    case (Inr lines)
    from github_url_to_raw_nonneg [OF p] have "0 \<le> endl" by simp
    then have "slice lines (max 0 (start - 1)) (min (len lines) endl) = []"
      using lt by (rule slice_lines_empty)
    then have "snippet_of lines start endl = None"
      by (simp add: snippet_of_def strip_def strip_with_def len_def)
    then show ?thesis using fetch_code_parsed [of u raw start endl get lines, OF p Inr] by simp
  qed
  from 1 2 3 4 show ?thesis by blast
qed
















lemma parse_reversed: "github_url_to_raw reversed_locator = Inr (raw_p, 10, 5)"
  by code_simp

lemma parse_garbage: "fetch_code_try serve50 ''p.py#L1'' = Inl ValueError"
  by code_simp







theorem fetch_code_total_witness:
  "fetch_code_try serve50 ''p.py#L1'' = Inl ValueError \<and> fetch_code serve50 ''p.py#L1'' = None
   \<and> github_url_to_raw reversed_locator = Inr (raw_p, 10, 5) \<and> (5 :: int) < 10
   \<and> fetch_code serve50 reversed_locator = None"
  using fetch_code_total [of serve50 "''p.py#L1''"] fetch_code_total [of serve50 reversed_locator]
    parse_garbage parse_reversed
  by simp

subsection \<open>The worker pool\<close>

lemma length_submit_all: "length (submit_all fetch jobs) = length jobs"
  by (simp add: submit_all_def)

lemma submit_all_nth:
  "i < length jobs \<Longrightarrow>
   submit_all fetch jobs ! i = (job_url (jobs ! i), fetch i (job_url (jobs ! i)), jobs ! i)"
  by (simp add: submit_all_def nth_enumerate_eq case_prod_unfold job_url_def)

lemma fetched_urls_submit_all: "fetched_urls (submit_all fetch jobs) = map job_url jobs"
  by (rule nth_equalityI)
    (simp_all add: fetched_urls_def length_submit_all submit_all_nth)

lemma count_list_map_filter: "count_list (map f xs) y = length (filter (\<lambda>x. f x = y) xs)"
  by (induction xs) auto

lemma in_submit_all:
  "f \<in> set (submit_all fetch jobs) \<longleftrightarrow>
   (\<exists>i < length jobs. f = (job_url (jobs ! i), fetch i (job_url (jobs ! i)), jobs ! i))"
  unfolding in_set_conv_nth length_submit_all
  using submit_all_nth [of _ jobs fetch] by (metis (no_types, lifting))

lemma job_urls_submit_all:
  "(\<lambda>f. job_url (snd (snd f))) ` set (submit_all fetch jobs) = set (map job_url jobs)"
proof -
  have "map (\<lambda>f. job_url (snd (snd f))) (submit_all fetch jobs) = map job_url jobs"
    by (rule nth_equalityI) (simp_all add: length_submit_all submit_all_nth)
  then have "set (map (\<lambda>f. job_url (snd (snd f))) (submit_all fetch jobs)) = set (map job_url jobs)"
    by simp
  then show ?thesis by (simp only: set_map)
qed

lemma collect_store: "collect completed = fold store completed Map.empty"
  by (simp add: collect_def store_def)

lemma store_apply:
  "store f m v = (if job_url (snd (snd f)) = v then Some (fst (snd f)) else m v)"
  by (cases f) (auto simp add: store_def job_url_def)

lemma fold_store_dom:
  "dom (fold store completed m) = dom m \<union> (\<lambda>f. job_url (snd (snd f))) ` set completed"
proof (induction completed arbitrary: m)
  case Nil
  then show ?case by simp
next
  case (Cons f fs)
  have "dom (store f m) = insert (job_url (snd (snd f))) (dom m)"
    by (auto simp add: store_apply dom_def)
  then show ?case by (simp add: Cons.IH)
qed

lemma fold_store_value:
  "fold store completed m v = Some res \<Longrightarrow>
   m v = Some res \<or> (\<exists>f \<in> set completed. job_url (snd (snd f)) = v \<and> fst (snd f) = res)"
proof (induction completed arbitrary: m)
  case Nil
  then show ?case by simp
next
  case (Cons f fs)
  from Cons.IH [of "store f m"] Cons.prems
  have "store f m v = Some res \<or> (\<exists>f \<in> set fs. job_url (snd (snd f)) = v \<and> fst (snd f) = res)"
    by simp
  then show ?case
    by (auto simp add: store_apply split: if_splits)
qed

lemma fetch_jobs_shared_feed:
  "fetch_jobs shared_feed =
     [(''parse json'', ''u1'', 3), (''parse json'', ''u2'', 3),
      (''load json'', ''u1'', 2), (''load json'', ''u3'', 2)]"
  by code_simp

text \<open>
  C2. The claim: a locator is fetched at most once in a run, however often it occurs among the
  candidates. The script submits \<^verbatim>\<open>fetch_code(url)\<close> once for every fetch job and never looks
  at the URLs already submitted: with the locator \<open>u1\<close> a candidate of two queries it is
  fetched twice.
\<close>

theorem shared_locator_fetched_twice:
  "fetch_jobs shared_feed =
     [(''parse json'', ''u1'', 3), (''parse json'', ''u2'', 3),
      (''load json'', ''u1'', 2), (''load json'', ''u3'', 2)]
   \<and> fetched_urls (submit_all offline (fetch_jobs shared_feed)) = [''u1'', ''u2'', ''u1'', ''u3'']
   \<and> count_list (fetched_urls (submit_all offline (fetch_jobs shared_feed))) ''u1'' = 2"
  by (simp add: fetch_jobs_shared_feed fetched_urls_submit_all job_url_def)

lemma submit_collect_jobs:
  "length (submit_all fetch jobs) = length jobs
   \<and> count_list (fetched_urls (submit_all fetch jobs)) u
       = length (filter (\<lambda>(query, u', rel). u' = u) jobs)
   \<and> (mset completed = mset (submit_all fetch jobs) \<longrightarrow>
        dom (collect completed) = set (fetched_urls (submit_all fetch jobs))
        \<and> (\<forall>v \<in> dom (collect completed).
              \<exists>i < length jobs. fst (snd (jobs ! i)) = v \<and> collect completed v = Some (fetch i v)))"
proof -
  have 1: "length (submit_all fetch jobs) = length jobs"
    by (rule length_submit_all)
  have 2: "count_list (fetched_urls (submit_all fetch jobs)) u
       = length (filter (\<lambda>(query, u', rel). u' = u) jobs)"
    by (simp add: fetched_urls_submit_all count_list_map_filter job_url_def case_prod_unfold)
  have 3: "dom (collect completed) = set (fetched_urls (submit_all fetch jobs))
        \<and> (\<forall>v \<in> dom (collect completed).
              \<exists>i < length jobs. fst (snd (jobs ! i)) = v \<and> collect completed v = Some (fetch i v))"
    if m: "mset completed = mset (submit_all fetch jobs)"
  proof -
    from m have s: "set completed = set (submit_all fetch jobs)"
      by (rule mset_eq_setD)
    have d: "dom (collect completed) = set (fetched_urls (submit_all fetch jobs))"
      by (simp only: collect_store fold_store_dom s fetched_urls_submit_all job_urls_submit_all
          dom_empty Un_empty_left)
    have "\<exists>i < length jobs. fst (snd (jobs ! i)) = v \<and> collect completed v = Some (fetch i v)"
      if "v \<in> dom (collect completed)" for v
    proof -
      from that obtain res where r: "collect completed v = Some res" by blast
      then obtain f where "f \<in> set completed" "job_url (snd (snd f)) = v" "fst (snd f) = res"
        using fold_store_value [of completed Map.empty v res] by (auto simp add: collect_store)
      then obtain i where "i < length jobs" "job_url (jobs ! i) = v" "res = fetch i v"
        unfolding s in_submit_all by auto
      then show ?thesis using r by (auto simp add: job_url_def)
    qed
    with d show ?thesis by blast
  qed
  from 1 2 3 show ?thesis by blast
qed


lemma fold_store_mock:
  assumes "\<forall>f \<in> set completed. fst (snd f) = mock (job_url (snd (snd f)))"
  shows "fold store completed m =
         (\<lambda>v. if v \<in> (\<lambda>f. job_url (snd (snd f))) ` set completed then Some (mock v) else m v)"
  using assms
proof (induction completed arbitrary: m)
  case Nil
  then show ?case by simp
next
  case (Cons f fs)
  have "fold store (f # fs) m = fold store fs (store f m)" by simp
  also have "\<dots> = (\<lambda>v. if v \<in> (\<lambda>f. job_url (snd (snd f))) ` set fs then Some (mock v)
                         else store f m v)"
    using Cons.prems by (intro Cons.IH) simp
  also have "\<dots> = (\<lambda>v. if v \<in> (\<lambda>f. job_url (snd (snd f))) ` set (f # fs) then Some (mock v)
                         else m v)"
    using Cons.prems by (auto simp add: store_apply fun_eq_iff)
  finally show ?case .
qed

lemma collect_mock:
  assumes "mset completed = mset (submit_all (\<lambda>i. mock) jobs)"
  shows "collect completed = (\<lambda>v. if v \<in> set (map job_url jobs) then Some (mock v) else None)"
proof -
  from assms have s: "set completed = set (submit_all (\<lambda>i. mock) jobs)"
    by (rule mset_eq_setD)
  have "fst (snd f) = mock (job_url (snd (snd f)))" if "f \<in> set completed" for f
  proof -
    from that obtain i where "f = (job_url (jobs ! i), mock (job_url (jobs ! i)), jobs ! i)"
      unfolding s in_submit_all by blast
    then show ?thesis by simp
  qed
  then have "\<forall>f \<in> set completed. fst (snd f) = mock (job_url (snd (snd f)))"
    by blast
  then have "collect completed =
         (\<lambda>v. if v \<in> (\<lambda>f. job_url (snd (snd f))) ` set completed then Some (mock v) else None)"
    unfolding collect_store by (rule fold_store_mock)
  then show ?thesis
    by (simp only: s job_urls_submit_all)
qed

text \<open>
  C9. Everything from the feed to \<open>(queries_raw, chunks_raw)\<close> is a function of the rows and
  of the results map, and the map depends on the run only through the order in which the
  pool completes the futures. With a mocked fetch, whose result depends on the locator
  alone, any two completion orders of the same futures give the same run: the same queries
  and chunks, or the same exception from loading.
\<close>

theorem run_order_independent:
  assumes "\<forall>bq. load rows = Inr bq \<longrightarrow>
             mset completed1 = mset (submit_all (\<lambda>i. mock) (fetch_jobs (good_queries bq)))
             \<and> mset completed2 = mset (submit_all (\<lambda>i. mock) (fetch_jobs (good_queries bq)))"
  shows "run rows completed1 = run rows completed2"
proof (cases "load rows")
  case (Inl e)
  then show ?thesis by (simp add: run_def)
next
  case (Inr bq)
  with assms have "collect completed1 = collect completed2"
    by (simp add: collect_mock)
  then show ?thesis using Inr by (simp add: run_def)
qed

lemma load_scenario_rows: "load scenario_rows = Inr scenario_feed"
  by code_simp

theorem run_order_independent_witness:
  "load scenario_rows = Inr scenario_feed
   \<and> mset (rev scenario_futures) = mset scenario_futures
   \<and> run scenario_rows (rev scenario_futures) = run scenario_rows scenario_futures"
  using run_order_independent [of scenario_rows "rev scenario_futures" mock_all scenario_futures]
    load_scenario_rows
  by (simp add: scenario_futures_def)

subsection \<open>The loops as functions\<close>

lemma q_chunks_loop_eq:
  "q_chunks_loop results qid cs (cc, acc) =
     (cc(qid := cc qid + length (filter (resolves results) cs)),
      acc @ map (chunk_of results qid) (enumerate (Suc (cc qid)) (filter (resolves results) cs)))"
proof (induction cs arbitrary: cc acc)
  case Nil
  then show ?case by simp
next
  case (Cons c cs)
  show ?case
  proof (cases "resolves results c")
    case False
    then show ?thesis
      by (auto simp add: resolves_def Cons.IH split: option.splits)
  next
    case True
    then obtain s where s: "results_get results (url c) = Some s" "s \<noteq> []"
      by (auto simp add: resolves_def split: option.splits)
    define cc' where "cc' = cc(qid := cc qid + 1)"
    have step: "q_chunks_loop results qid (c # cs) (cc, acc) =
        q_chunks_loop results qid cs (cc', acc @ [chunk_of results qid (Suc (cc qid), c)])"
      using s by (simp add: cc'_def Let_def chunk_of_def)
    have v: "cc' qid = Suc (cc qid)"
      by (simp add: cc'_def)
    have u: "cc'(qid := y) = cc(qid := y)" for y
      by (simp add: cc'_def)
    show ?thesis
      unfolding step Cons.IH v u using True by (simp add: fun_upd_def)
  qed
qed


lemma assemble_step_eq:
  assumes "cc (qid_of qi) = 0"
  shows "assemble_step results (qi, (q, cands)) (cc, qs, chs) =
     (cc(qid_of qi := length (filter (resolves results) (selected cands))),
      qs @ (if kept (q_chunks_of results qi cands)
            then [query_of (qid_of qi) q (q_chunks_of results qi cands)] else []),
      chs @ (if kept (q_chunks_of results qi cands) then q_chunks_of results qi cands else []))"
proof -
  have q: "''q_'' @ fmt_02d qi = qid_of qi"
    by (simp add: qid_of_def)
  have loop: "q_chunks_loop results (qid_of qi) (selected cands) (cc, []) =
      (cc(qid_of qi := length (filter (resolves results) (selected cands))),
       q_chunks_of results qi cands)"
    using assms by (simp add: q_chunks_loop_eq q_chunks_of_def)
  show ?thesis
    unfolding assemble_step_def prod.case q Let_def loop
    by (auto simp add: kept_def relevant_of_def query_of_def scores_of_def)
qed

lemma entries_Nil: "entries results n [] = []"
  by (simp add: entries_def)

lemma entries_Cons:
  "entries results n ((q, cands) # gq) =
     (if kept (q_chunks_of results n cands) then [(n, q, q_chunks_of results n cands)] else [])
     @ entries results (Suc n) gq"
  by (simp add: entries_def)

lemma fold_assemble_step:
  assumes "\<forall>j \<ge> n. cc (qid_of j) = 0"
  shows "snd (fold (assemble_step results) (enumerate n gq) (cc, qs, chs)) =
     (qs @ map (\<lambda>(qi, q, c). query_of (qid_of qi) q c) (entries results n gq),
      chs @ concat (map (\<lambda>(qi, q, c). c) (entries results n gq)))"
  using assms
proof (induction gq arbitrary: n cc qs chs)
  case Nil
  then show ?case by (simp add: entries_Nil)
next
  case (Cons x gq)
  obtain q cands where x: "x = (q, cands)" by (cases x)
  define cc' where "cc' = cc(qid_of n := length (filter (resolves results) (selected cands)))"
  have z: "\<forall>j \<ge> Suc n. cc' (qid_of j) = 0"
    using Cons.prems by (auto simp add: cc'_def dest: qid_of_inj)
  have n0: "cc (qid_of n) = 0"
    using Cons.prems by simp
  show ?case
    unfolding x enumerate_simps fold_simps assemble_step_eq [of cc n, OF n0] entries_Cons
    unfolding cc'_def [symmetric] Cons.IH [OF z]
    by simp
qed

lemma assemble_eq:
  "assemble results gq =
     (map (\<lambda>(qi, q, c). query_of (qid_of qi) q c) (entries results 0 gq),
      concat (map (\<lambda>(qi, q, c). c) (entries results 0 gq)))"
  unfolding assemble_def by (subst fold_assemble_step) simp_all

lemma entries_D:
  assumes "(qi, q, c) \<in> set (entries results n gq)"
  shows "n \<le> qi \<and> qi < n + length gq \<and> q = fst (gq ! (qi - n))
         \<and> c = q_chunks_of results qi (snd (gq ! (qi - n))) \<and> kept c"
  using assms
  by (auto simp add: entries_def in_set_enumerate_eq case_prod_unfold)

lemma entries_distinct: "distinct (map fst (entries results n gq))"
proof -
  have "map fst (map (\<lambda>(qi, (q, candidates)). (qi, q, q_chunks_of results qi candidates))
                  (enumerate n gq)) = map fst (enumerate n gq)"
    by (simp add: case_prod_unfold comp_def)
  then have "distinct (map fst (map (\<lambda>(qi, (q, candidates)). (qi, q, q_chunks_of results qi candidates))
                  (enumerate n gq)))"
    by (simp only: map_fst_enumerate distinct_upt)
  then show ?thesis
    unfolding entries_def by (rule distinct_map_filter)
qed

subsection \<open>The assembled dataset\<close>

lemma q_chunks_of_query_id: "c \<in> set (q_chunks_of results qi cands) \<Longrightarrow> query_id c = qid_of qi"
  by (auto simp add: q_chunks_of_def chunk_of_def)

lemma chunk_ids_of:
  "map chunk_id (q_chunks_of results qi cands) =
     map (\<lambda>k. qid_of qi @ ''_c'' @ fmt_02d k)
       [1 ..< Suc (length (filter (resolves results) (selected cands)))]"
proof -
  have "map chunk_id (map (chunk_of results qid) ps) = map (\<lambda>k. qid @ ''_c'' @ fmt_02d k) (map fst ps)"
    for qid and ps :: "(nat \<times> candidate) list"
    by (simp add: chunk_of_def case_prod_unfold comp_def)
  then show ?thesis
    by (simp only: q_chunks_of_def map_fst_enumerate) simp
qed

lemma chunk_ids_of_distinct: "distinct (map chunk_id (q_chunks_of results qi cands))"
proof -
  have "inj_on (\<lambda>k. qid_of qi @ ''_c'' @ fmt_02d k) A" for A
    by (rule inj_onI) (use chunk_id_inj in blast)
  then show ?thesis
    unfolding chunk_ids_of by (simp only: distinct_map distinct_upt simp_thms)
qed

lemma chunk_ids_of_disjoint:
  assumes "qi \<noteq> qj"
  shows "set (map chunk_id (q_chunks_of results qi cands))
         \<inter> set (map chunk_id (q_chunks_of results qj cands')) = {}"
proof -
  have False
    if "x \<in> set (map chunk_id (q_chunks_of results qi cands))"
      and "x \<in> set (map chunk_id (q_chunks_of results qj cands'))" for x
  proof -
    from that obtain k l where "x = qid_of qi @ ''_c'' @ fmt_02d k" "x = qid_of qj @ ''_c'' @ fmt_02d l"
      unfolding chunk_ids_of set_map by blast
    then have "qi = qj" using chunk_id_inj by metis
    with assms show False by (rule notE)
  qed
  then show ?thesis by blast
qed

lemma length_filter_enumerate:
  "length (filter (\<lambda>p. P (snd p)) (enumerate n xs)) = length (filter P xs)"
  by (induction xs arbitrary: n) simp_all

lemma filter_selected_positive:
  assumes "\<And>c. P c \<Longrightarrow> relevance c \<ge> RELEVANCE_THRESHOLD"
  shows "filter P (selected cs) = filter P cs"
proof -
  have 1: "filter P (positives cs) = filter P cs"
    unfolding positives_def filter_filter using assms by (intro filter_cong) auto
  have "set (slice_to (negatives cs) b) \<subseteq> set (negatives cs)" for b
    by (auto simp add: slice_to_def slice_def Let_def dest!: in_set_takeD in_set_dropD)
  then have 2: "filter P (slice_to (negatives cs) b) = []" for b
    using assms by (fastforce simp add: filter_empty_conv negatives_def)
  show ?thesis by (simp add: selected_def 1 2)
qed

lemma relevant_of_length:
  "len (relevant_of (q_chunks_of results qi cands)) = resolved_positives results cands"
proof -
  have "length (relevant_of (q_chunks_of results qi cands)) =
        length (filter (\<lambda>p. relevance (snd p) \<ge> RELEVANCE_THRESHOLD)
                  (enumerate 1 (filter (resolves results) (selected cands))))"
    by (simp add: relevant_of_def q_chunks_of_def filter_map comp_def chunk_of_def case_prod_unfold)
  also have "\<dots> = length (filter (\<lambda>c. relevance c \<ge> RELEVANCE_THRESHOLD)
                       (filter (resolves results) (selected cands)))"
    by (rule length_filter_enumerate)
  also have "\<dots> = length (filter (\<lambda>c. relevance c \<ge> RELEVANCE_THRESHOLD \<and> resolves results c)
                       (selected cands))"
    by (simp add: conj_commute)
  also have "\<dots> = length (filter (\<lambda>c. relevance c \<ge> RELEVANCE_THRESHOLD \<and> resolves results c) cands)"
    by (subst filter_selected_positive) simp_all
  finally show ?thesis
    by (simp add: len_def resolved_positives_def)
qed

lemma scores_keys_fold:
  "fst ` set (fold (\<lambda>c d. AList.update (f c) (g c) d) xs d0) = fst ` set d0 \<union> f ` set xs"
  by (induction xs arbitrary: d0) (auto simp add: dom_update)

lemma scores_of_keys: "fst ` set (scores_of q_chunks) = chunk_id ` set q_chunks"
  by (simp add: scores_of_def scores_keys_fold)

lemma relevant_of_subset: "set (relevant_of q_chunks) \<subseteq> chunk_id ` set q_chunks"
  by (auto simp add: relevant_of_def)

lemma distinct_concat_keyed:
  assumes "distinct (map fst es)" and "\<forall>e \<in> set es. distinct (F e)"
    and "\<forall>e \<in> set es. \<forall>e' \<in> set es. fst e \<noteq> fst e' \<longrightarrow> set (F e) \<inter> set (F e') = {}"
  shows "distinct (concat (map F es))"
  using assms
proof (induction es)
  case Nil
  then show ?case by simp
next
  case (Cons e es)
  have "set (F e) \<inter> set (F e') = {}" if "e' \<in> set es" for e'
  proof -
    from that Cons.prems(1) have "fst e \<noteq> fst e'" by auto
    with that Cons.prems(3) show ?thesis by simp
  qed
  moreover have "distinct (concat (map F es))"
    using Cons.prems by (intro Cons.IH) simp_all
  ultimately show ?case
    using Cons.prems(2) by auto
qed

lemma queries_of_assemble:
  assumes "Q \<in> set (fst (assemble results gq))"
  obtains qi where "qi < length gq" "kept (q_chunks_of results qi (snd (gq ! qi)))"
    "Q = query_of (qid_of qi) (fst (gq ! qi)) (q_chunks_of results qi (snd (gq ! qi)))"
    "set (q_chunks_of results qi (snd (gq ! qi))) \<subseteq> set (snd (assemble results gq))"
proof -
  from assms obtain qi q c where e: "(qi, q, c) \<in> set (entries results 0 gq)"
    and Q: "Q = query_of (qid_of qi) q c"
    by (auto simp add: assemble_eq)
  from entries_D [OF e] have d: "qi < length gq" "q = fst (gq ! qi)"
    "c = q_chunks_of results qi (snd (gq ! qi))" "kept c"
    by auto
  have "set c \<subseteq> set (snd (assemble results gq))"
    using e by (force simp add: assemble_eq)
  with d Q show ?thesis
    by (intro that [of qi]) simp_all
qed

lemma chunks_of_assemble:
  assumes "x \<in> set (snd (assemble results gq))"
  obtains qi where "qi < length gq" "kept (q_chunks_of results qi (snd (gq ! qi)))"
    "x \<in> set (q_chunks_of results qi (snd (gq ! qi)))"
    "query_of (qid_of qi) (fst (gq ! qi)) (q_chunks_of results qi (snd (gq ! qi)))
       \<in> set (fst (assemble results gq))"
proof -
  from assms obtain qi q c where e: "(qi, q, c) \<in> set (entries results 0 gq)"
    and x: "x \<in> set c"
    by (auto simp add: assemble_eq)
  from entries_D [OF e] have d: "qi < length gq" "q = fst (gq ! qi)"
    "c = q_chunks_of results qi (snd (gq ! qi))" "kept c"
    by auto
  have "query_of (qid_of qi) q c \<in> set (fst (assemble results gq))"
    using e by (force simp add: assemble_eq)
  with d x show ?thesis
    by (intro that [of qi]) simp_all
qed


text \<open>
  C7. In every query of the output the relevant ids are among the chunk ids of that query and
  there are at least \<open>MIN_POSITIVES\<close> of them. A selected query, at index \<open>qi\<close>, with fewer than
  \<open>MIN_POSITIVES\<close> positives that resolved is absent from the output: no query has its id
  \<open>q_<qi>\<close> and no chunk carries that id as its \<open>query_id\<close>.
\<close>

theorem assemble_revalidated:
  "(\<forall>Q \<in> set (fst (assemble results gq)).
      set (relevantIds Q) \<subseteq> set (chunkIds Q) \<and> MIN_POSITIVES \<le> len (relevantIds Q))
   \<and> (\<forall>qi < length gq.
        resolved_positives results (snd (gq ! qi)) < MIN_POSITIVES \<longrightarrow>
        (\<forall>c \<in> set (snd (assemble results gq)). query_id c \<noteq> qid_of qi)
        \<and> (\<forall>Q \<in> set (fst (assemble results gq)). q_id Q \<noteq> qid_of qi))"
proof -
  have 1: "set (relevantIds Q) \<subseteq> set (chunkIds Q) \<and> MIN_POSITIVES \<le> len (relevantIds Q)"
    if "Q \<in> set (fst (assemble results gq))" for Q
    using that
  proof (rule queries_of_assemble)
    fix qi
    assume "kept (q_chunks_of results qi (snd (gq ! qi)))"
      and "Q = query_of (qid_of qi) (fst (gq ! qi)) (q_chunks_of results qi (snd (gq ! qi)))"
    then show ?thesis
      using relevant_of_subset [of "q_chunks_of results qi (snd (gq ! qi))"]
      by (simp add: query_of_def kept_def)
  qed
  have 2: "query_id c \<noteq> qid_of qi"
    if lt: "resolved_positives results (snd (gq ! qi)) < MIN_POSITIVES"
      and c: "c \<in> set (snd (assemble results gq))" for qi c
    using c
  proof (rule chunks_of_assemble)
    fix qj
    assume k: "kept (q_chunks_of results qj (snd (gq ! qj)))"
      and "c \<in> set (q_chunks_of results qj (snd (gq ! qj)))"
    then have "query_id c = qid_of qj" by (simp add: q_chunks_of_query_id)
    moreover have "qj \<noteq> qi"
      using k lt by (auto simp add: kept_def relevant_of_length)
    ultimately show ?thesis by (auto dest: qid_of_inj)
  qed
  have 3: "q_id Q \<noteq> qid_of qi"
    if lt: "resolved_positives results (snd (gq ! qi)) < MIN_POSITIVES"
      and Q: "Q \<in> set (fst (assemble results gq))" for qi Q
    using Q
  proof (rule queries_of_assemble)
    fix qj
    assume k: "kept (q_chunks_of results qj (snd (gq ! qj)))"
      and "Q = query_of (qid_of qj) (fst (gq ! qj)) (q_chunks_of results qj (snd (gq ! qj)))"
    then have "q_id Q = qid_of qj" by (simp add: query_of_def)
    moreover have "qj \<noteq> qi"
      using k lt by (auto simp add: kept_def relevant_of_length)
    ultimately show ?thesis by (auto dest: qid_of_inj)
  qed
  from 1 2 3 show ?thesis by blast
qed

text \<open>
  C8. The chunk ids of the output are pairwise distinct, and every id that a query lists in
  \<open>chunkIds\<close> or \<open>relevantIds\<close>, or uses as a key of \<open>relevanceScores\<close>, is the id of a chunk of
  the output; being distinct, of exactly one.
\<close>

theorem assemble_referential_integrity:
  "distinct (map chunk_id (snd (assemble results gq)))
   \<and> (\<forall>Q \<in> set (fst (assemble results gq)).
        set (chunkIds Q) \<union> set (relevantIds Q) \<union> fst ` set (relevanceScores Q)
          \<subseteq> chunk_id ` set (snd (assemble results gq)))"
proof -
  let ?es = "entries results 0 gq"
  let ?F = "\<lambda>e :: nat \<times> string \<times> chunk list. map chunk_id (snd (snd e))"
  have chunks: "\<exists>cands. snd (snd e) = q_chunks_of results (fst e) cands" if "e \<in> set ?es" for e
    using entries_D [of "fst e" "fst (snd e)" "snd (snd e)" results 0 gq] that by auto
  have "distinct (concat (map ?F ?es))"
  proof (rule distinct_concat_keyed)
    show "distinct (map fst ?es)" by (rule entries_distinct)
    show "\<forall>e \<in> set ?es. distinct (?F e)"
      using chunks chunk_ids_of_distinct by metis
    show "\<forall>e \<in> set ?es. \<forall>e' \<in> set ?es. fst e \<noteq> fst e' \<longrightarrow> set (?F e) \<inter> set (?F e') = {}"
      using chunks chunk_ids_of_disjoint by metis
  qed
  moreover have "map chunk_id (snd (assemble results gq)) = concat (map ?F ?es)"
    by (simp add: assemble_eq map_concat comp_def case_prod_unfold)
  ultimately have 1: "distinct (map chunk_id (snd (assemble results gq)))"
    by simp
  have 2: "set (chunkIds Q) \<union> set (relevantIds Q) \<union> fst ` set (relevanceScores Q)
          \<subseteq> chunk_id ` set (snd (assemble results gq))"
    if "Q \<in> set (fst (assemble results gq))" for Q
    using that
  proof (rule queries_of_assemble)
    fix qi
    assume Q: "Q = query_of (qid_of qi) (fst (gq ! qi)) (q_chunks_of results qi (snd (gq ! qi)))"
      and sub: "set (q_chunks_of results qi (snd (gq ! qi))) \<subseteq> set (snd (assemble results gq))"
    have "set (chunkIds Q) \<union> set (relevantIds Q) \<union> fst ` set (relevanceScores Q)
          \<subseteq> chunk_id ` set (q_chunks_of results qi (snd (gq ! qi)))"
      using relevant_of_subset [of "q_chunks_of results qi (snd (gq ! qi))"]
      by (simp add: Q query_of_def scores_of_keys)
    also have "\<dots> \<subseteq> chunk_id ` set (snd (assemble results gq))"
      using sub by (rule image_mono)
    finally show ?thesis .
  qed
  from 1 2 show ?thesis by blast
qed

text \<open>
  C10. The query ids of the output are pairwise distinct; every chunk of the output has the
  id of an output query as its \<open>query_id\<close>, and that query lists the chunk in \<open>chunkIds\<close>; and
  the keys of a query's \<open>relevanceScores\<close> are exactly its \<open>chunkIds\<close>.
\<close>

theorem assemble_no_orphans:
  "distinct (map q_id (fst (assemble results gq)))
   \<and> (\<forall>c \<in> set (snd (assemble results gq)).
        \<exists>Q \<in> set (fst (assemble results gq)). q_id Q = query_id c \<and> chunk_id c \<in> set (chunkIds Q))
   \<and> (\<forall>Q \<in> set (fst (assemble results gq)). fst ` set (relevanceScores Q) = set (chunkIds Q))"
proof -
  have "map q_id (fst (assemble results gq)) = map qid_of (map fst (entries results 0 gq))"
    by (simp add: assemble_eq query_of_def case_prod_unfold comp_def)
  moreover have "distinct (map qid_of (map fst (entries results 0 gq)))"
    unfolding distinct_map [of qid_of]
    using entries_distinct [of results 0 gq] by (auto intro!: inj_onI dest: qid_of_inj)
  ultimately have 1: "distinct (map q_id (fst (assemble results gq)))"
    by simp
  have 2: "\<exists>Q \<in> set (fst (assemble results gq)). q_id Q = query_id c \<and> chunk_id c \<in> set (chunkIds Q)"
    if "c \<in> set (snd (assemble results gq))" for c
    using that
  proof (rule chunks_of_assemble)
    fix qi
    let ?Q = "query_of (qid_of qi) (fst (gq ! qi)) (q_chunks_of results qi (snd (gq ! qi)))"
    assume c: "c \<in> set (q_chunks_of results qi (snd (gq ! qi)))"
      and Q: "?Q \<in> set (fst (assemble results gq))"
    have "q_id ?Q = query_id c \<and> chunk_id c \<in> set (chunkIds ?Q)"
      using c by (simp add: query_of_def q_chunks_of_query_id)
    with Q show ?thesis by blast
  qed
  have 3: "fst ` set (relevanceScores Q) = set (chunkIds Q)"
    if "Q \<in> set (fst (assemble results gq))" for Q
    using that
  proof (rule queries_of_assemble)
    fix qi
    assume "Q = query_of (qid_of qi) (fst (gq ! qi)) (q_chunks_of results qi (snd (gq ! qi)))"
    then show ?thesis by (simp add: query_of_def scores_of_keys)
  qed
  from 1 2 3 show ?thesis by blast
qed


lemma assemble_scenario:
  "assemble scenario_results scenario_feed =
     ([\<lparr>q_id = ''q_00'', query = ''parse json'', relevantIds = [''q_00_c01'', ''q_00_c02''],
        relevanceScores = [(''q_00_c01'', 3), (''q_00_c02'', 3), (''q_00_c03'', 1)],
        chunkIds = [''q_00_c01'', ''q_00_c02'', ''q_00_c03'']\<rparr>],
      [\<lparr>chunk_id = ''q_00_c01'', query_id = ''q_00'', chunk_relevance = 3, source_url = ''u1'',
         code = the (mock_all ''u1'')\<rparr>,
       \<lparr>chunk_id = ''q_00_c02'', query_id = ''q_00'', chunk_relevance = 3, source_url = ''u2'',
         code = the (mock_all ''u2'')\<rparr>,
       \<lparr>chunk_id = ''q_00_c03'', query_id = ''q_00'', chunk_relevance = 1, source_url = ''u3'',
         code = the (mock_all ''u3'')\<rparr>])"
  by code_simp

lemma assemble_degraded:
  "resolved_positives degraded_results (snd (scenario_feed ! 0)) = 1
   \<and> assemble degraded_results scenario_feed = ([], [])"
  by code_simp

lemma assemble_shared:
  "map q_id (fst (assemble shared_results shared_feed)) = [''q_00'', ''q_01'']
   \<and> map chunkIds (fst (assemble shared_results shared_feed))
       = [[''q_00_c01'', ''q_00_c02''], [''q_01_c01'', ''q_01_c02'']]
   \<and> map chunk_id (snd (assemble shared_results shared_feed))
       = [''q_00_c01'', ''q_00_c02'', ''q_01_c01'', ''q_01_c02'']
   \<and> map query_id (snd (assemble shared_results shared_feed))
       = [''q_00'', ''q_00'', ''q_01'', ''q_01'']
   \<and> map source_url (snd (assemble shared_results shared_feed)) = [''u1'', ''u2'', ''u1'', ''u3'']"
  by code_simp

theorem assemble_revalidated_witness:
  "relevantIds (hd (fst (assemble scenario_results scenario_feed))) = [''q_00_c01'', ''q_00_c02'']
   \<and> set (relevantIds (hd (fst (assemble scenario_results scenario_feed))))
        \<subseteq> set (chunkIds (hd (fst (assemble scenario_results scenario_feed))))
   \<and> MIN_POSITIVES \<le> len (relevantIds (hd (fst (assemble scenario_results scenario_feed))))
   \<and> resolved_positives degraded_results (snd (scenario_feed ! 0)) < MIN_POSITIVES
   \<and> snd (assemble degraded_results scenario_feed) = []"
  using assemble_revalidated [of scenario_results scenario_feed]
    assemble_revalidated [of degraded_results scenario_feed]
    assemble_scenario assemble_degraded
  by (simp add: MIN_POSITIVES_def len_def)

theorem assemble_referential_integrity_witness:
  "map chunk_id (snd (assemble shared_results shared_feed))
     = [''q_00_c01'', ''q_00_c02'', ''q_01_c01'', ''q_01_c02'']
   \<and> distinct (map chunk_id (snd (assemble shared_results shared_feed)))
   \<and> fst (assemble shared_results shared_feed) \<noteq> []
   \<and> set (chunkIds (hd (fst (assemble shared_results shared_feed))))
        \<subseteq> chunk_id ` set (snd (assemble shared_results shared_feed))"
proof -
  have ne: "fst (assemble shared_results shared_feed) \<noteq> []"
    using assemble_shared by auto
  then have "hd (fst (assemble shared_results shared_feed)) \<in> set (fst (assemble shared_results shared_feed))"
    by simp
  then show ?thesis
    using assemble_referential_integrity [of shared_results shared_feed] assemble_shared ne
    by auto
qed

theorem assemble_no_orphans_witness:
  "map q_id (fst (assemble shared_results shared_feed)) = [''q_00'', ''q_01'']
   \<and> map query_id (snd (assemble shared_results shared_feed)) = [''q_00'', ''q_00'', ''q_01'', ''q_01'']
   \<and> distinct (map q_id (fst (assemble shared_results shared_feed)))
   \<and> snd (assemble shared_results shared_feed) \<noteq> []
   \<and> query_id (hd (snd (assemble shared_results shared_feed)))
        \<in> q_id ` set (fst (assemble shared_results shared_feed))"
proof -
  have ne: "snd (assemble shared_results shared_feed) \<noteq> []"
    using assemble_shared by auto
  then have "hd (snd (assemble shared_results shared_feed)) \<in> set (snd (assemble shared_results shared_feed))"
    by simp
  then show ?thesis
    using assemble_no_orphans [of shared_results shared_feed] assemble_shared ne
    by (auto simp add: image_iff)
qed

subsection \<open>Fetches, results and the chunks that read them\<close>

lemma fold_store_last:
  "fold store completed m v =
     (case filter (\<lambda>f. job_url (snd (snd f)) = v) completed of
        [] \<Rightarrow> m v
      | f # fs \<Rightarrow> Some (fst (snd (last (f # fs)))))"
proof (induction completed arbitrary: m)
  case Nil
  then show ?case by simp
next
  case (Cons g gs)
  let ?P = "\<lambda>f. job_url (snd (snd f)) = v"
  have sv: "store g m v = (if ?P g then Some (fst (snd g)) else m v)"
    by (rule store_apply)
  have step: "fold store (g # gs) m v =
      (case filter ?P gs of [] \<Rightarrow> store g m v | f # fs \<Rightarrow> Some (fst (snd (last (f # fs)))))"
    unfolding fold_simps by (rule Cons.IH)
  show ?case
  proof (cases "filter ?P gs")
    case Nil
    then show ?thesis unfolding step sv by simp
  next
    case (Cons f fs)
    then show ?thesis unfolding step sv by simp
  qed
qed

lemma collect_last:
  "collect completed v =
     (case filter (\<lambda>(called, res, (q, u', rel)). u' = v) completed of
        [] \<Rightarrow> None
      | f # fs \<Rightarrow> Some (fst (snd (last (f # fs)))))"
proof -
  have "(\<lambda>(called, res, (q, u', rel)). u' = v) = (\<lambda>f :: future. job_url (snd (snd f)) = v)"
    by (simp add: fun_eq_iff job_url_def case_prod_unfold)
  then show ?thesis
    by (simp add: collect_store fold_store_last)
qed

lemma job_urls_fetch_jobs:
  "map job_url (fetch_jobs gq) = map url (concat (map (\<lambda>(q, candidates). selected candidates) gq))"
  by (induction gq) (auto simp add: fetch_jobs_def job_url_def)

lemma chunk_reads_entry:
  assumes "x \<in> set (snd (assemble results gq))"
  shows "results_get results (source_url x) = Some (code x)"
  using assms
proof (rule chunks_of_assemble)
  fix qi
  let ?xs = "filter (resolves results) (selected (snd (gq ! qi)))"
  assume "x \<in> set (q_chunks_of results qi (snd (gq ! qi)))"
  then obtain p where p: "p \<in> set (enumerate 1 ?xs)" and x: "x = chunk_of results (qid_of qi) p"
    unfolding q_chunks_of_def by auto
  from p have "fst p - 1 < length ?xs" "?xs ! (fst p - 1) = snd p"
    unfolding in_set_enumerate_eq by auto
  then have "snd p \<in> set ?xs"
    using nth_mem [of "fst p - 1" ?xs] by simp
  then have "resolves results (snd p)"
    by simp
  then obtain s where "results_get results (url (snd p)) = Some s"
    by (auto simp add: resolves_def split: option.splits)
  then show ?thesis
    by (simp add: x chunk_of_def case_prod_unfold)
qed

text \<open>
  C2, amended. One fetch is submitted per sampled candidate of a selected query, so a
  locator is fetched as many times as it occurs among them. The results are keyed by
  locator: the entry of a locator is the result of the fetch for it that completed last, so
  that once every future has completed there is one entry per distinct locator, holding
  the result of one of the fetches made for it; and every chunk of the assembled dataset,
  whichever query it belongs to, carries the text of the entry of its locator.
\<close>

theorem one_fetch_per_job:
  "length (submit_all fetch (fetch_jobs gq))
     = length (concat (map (\<lambda>(q, candidates). selected candidates) gq))
   \<and> count_list (fetched_urls (submit_all fetch (fetch_jobs gq))) u
       = length (filter (\<lambda>c. url c = u) (concat (map (\<lambda>(q, candidates). selected candidates) gq)))
   \<and> (\<forall>v. collect completed v =
         (case filter (\<lambda>(called, res, (q, u', rel)). u' = v) completed of
            [] \<Rightarrow> None
          | f # fs \<Rightarrow> Some (fst (snd (last (f # fs))))))
   \<and> (mset completed = mset (submit_all fetch (fetch_jobs gq)) \<longrightarrow>
        dom (collect completed) = set (fetched_urls (submit_all fetch (fetch_jobs gq)))
        \<and> (\<forall>v \<in> dom (collect completed).
              \<exists>i < length (fetch_jobs gq).
                 fst (snd (fetch_jobs gq ! i)) = v \<and> collect completed v = Some (fetch i v)))
   \<and> (\<forall>x \<in> set (snd (assemble (collect completed) gq)).
         results_get (collect completed) (source_url x) = Some (code x))"
proof -
  note old = submit_collect_jobs [of fetch "fetch_jobs gq" u completed]
  have len: "length (fetch_jobs gq) = length (concat (map (\<lambda>(q, candidates). selected candidates) gq))"
    using arg_cong [OF job_urls_fetch_jobs [of gq], of length] by simp
  have 1: "length (submit_all fetch (fetch_jobs gq))
     = length (concat (map (\<lambda>(q, candidates). selected candidates) gq))"
    using old len by simp
  have 2: "count_list (fetched_urls (submit_all fetch (fetch_jobs gq))) u
       = length (filter (\<lambda>c. url c = u) (concat (map (\<lambda>(q, candidates). selected candidates) gq)))"
    by (simp only: fetched_urls_submit_all job_urls_fetch_jobs count_list_map_filter)
  have 3: "\<forall>v. collect completed v =
         (case filter (\<lambda>(called, res, (q, u', rel)). u' = v) completed of
            [] \<Rightarrow> None
          | f # fs \<Rightarrow> Some (fst (snd (last (f # fs)))))"
    using collect_last by blast
  have 4: "mset completed = mset (submit_all fetch (fetch_jobs gq)) \<longrightarrow>
        dom (collect completed) = set (fetched_urls (submit_all fetch (fetch_jobs gq)))
        \<and> (\<forall>v \<in> dom (collect completed).
              \<exists>i < length (fetch_jobs gq).
                 fst (snd (fetch_jobs gq ! i)) = v \<and> collect completed v = Some (fetch i v))"
    using old by blast
  have 5: "\<forall>x \<in> set (snd (assemble (collect completed) gq)).
         results_get (collect completed) (source_url x) = Some (code x)"
    using chunk_reads_entry by blast
  from 1 2 3 4 5 show ?thesis by blast
qed

lemma shared_feed_flaky:
  "(case filter (\<lambda>(called, res, (q, u', rel)). u' = ''u1'')
           (rev (submit_all flaky (fetch_jobs shared_feed))) of
      [] \<Rightarrow> None
    | f # fs \<Rightarrow> Some (fst (snd (last (f # fs))))) = Some None"
  "(case filter (\<lambda>(called, res, (q, u', rel)). u' = ''u1'')
           (submit_all flaky (fetch_jobs shared_feed)) of
      [] \<Rightarrow> None
    | f # fs \<Rightarrow> Some (fst (snd (last (f # fs))))) = Some (Some ''text of u1'')"
  "map (\<lambda>x. (query_id x, source_url x, code x))
     (snd (assemble (collect (submit_all flaky (fetch_jobs shared_feed))) shared_feed))
   = [(''q_00'', ''u1'', ''text of u1''), (''q_00'', ''u2'', ''text of u2''),
      (''q_01'', ''u1'', ''text of u1''), (''q_01'', ''u3'', ''text of u3'')]"
  "length (concat (map (\<lambda>(q, candidates). selected candidates) shared_feed)) = 4"
  "length (filter (\<lambda>c. url c = ''u1'')
     (concat (map (\<lambda>(q, candidates). selected candidates) shared_feed))) = 2"
  by code_simp+

theorem one_fetch_per_job_witness:
  "mset (rev (submit_all flaky (fetch_jobs shared_feed))) = mset (submit_all flaky (fetch_jobs shared_feed))
   \<and> length (submit_all flaky (fetch_jobs shared_feed)) = 4
   \<and> count_list (fetched_urls (submit_all flaky (fetch_jobs shared_feed))) ''u1'' = 2
   \<and> dom (collect (rev (submit_all flaky (fetch_jobs shared_feed)))) = {''u1'', ''u2'', ''u3''}
   \<and> collect (rev (submit_all flaky (fetch_jobs shared_feed))) ''u1'' = Some None
   \<and> collect (submit_all flaky (fetch_jobs shared_feed)) ''u1'' = Some (Some ''text of u1'')
   \<and> snd (assemble (collect (submit_all flaky (fetch_jobs shared_feed))) shared_feed) \<noteq> []
   \<and> results_get (collect (submit_all flaky (fetch_jobs shared_feed)))
        (source_url (hd (snd (assemble (collect (submit_all flaky (fetch_jobs shared_feed))) shared_feed))))
      = Some ''text of u1''"
proof -
  let ?S = "submit_all flaky (fetch_jobs shared_feed)"
  note r = one_fetch_per_job [of flaky shared_feed "''u1''" "rev ?S"]
  note s = one_fetch_per_job [of flaky shared_feed "''u1''" ?S]
  have ne: "snd (assemble (collect ?S) shared_feed) \<noteq> []"
    using shared_feed_flaky(3) by auto
  then have hd_in: "hd (snd (assemble (collect ?S) shared_feed)) \<in> set (snd (assemble (collect ?S) shared_feed))"
    by simp
  have code_hd: "code (hd (snd (assemble (collect ?S) shared_feed))) = ''text of u1''"
    using shared_feed_flaky(3) ne by (cases "snd (assemble (collect ?S) shared_feed)") auto
  have 1: "length ?S = 4" "count_list (fetched_urls ?S) ''u1'' = 2"
    using s shared_feed_flaky(4,5) by simp_all
  have 2: "dom (collect (rev ?S)) = {''u1'', ''u2'', ''u3''}"
    using r by (auto simp add: fetch_jobs_shared_feed fetched_urls_submit_all job_url_def)
  have 3: "collect (rev ?S) ''u1'' = Some None"
    using r shared_feed_flaky(1) by simp
  have 4: "collect ?S ''u1'' = Some (Some ''text of u1'')"
    using s shared_feed_flaky(2) by simp
  have 5: "results_get (collect ?S) (source_url (hd (snd (assemble (collect ?S) shared_feed))))
      = Some ''text of u1''"
    using s hd_in code_hd by simp
  from 1 2 3 4 5 ne show ?thesis by simp
qed

end
